theory Spec2Isabelle
  imports Main "HOL-Library.Sublist"
begin

section \<open>Characters and strings of the source language\<close>

text \<open>
  The program is Python; its strings are sequences of code points.  A line is
  modelled as a \<^typ>\<open>string\<close>, each \<^typ>\<open>char\<close> standing for the code
  point of the same number (0 to 255).  The character classes below are the ones
  Python uses for \<open>str.strip()\<close>, \<open>\s\<close>, \<open>\S\<close>, \<open>\d\<close>, \<open>\w\<close> and
  \<open>.\<close> on that range.
\<close>

definition code :: "char \<Rightarrow> nat" where
  "code c = of_char c"

definition newline :: char where
  "newline = CHR 0x0A"

definition is_space :: "char \<Rightarrow> bool" where
  "is_space c = (let n = code c in
     (9 \<le> n \<and> n \<le> 13) \<or> (28 \<le> n \<and> n \<le> 32) \<or> n = 133 \<or> n = 160)"

definition non_space :: "char \<Rightarrow> bool" where
  "non_space c = (\<not> is_space c)"

definition is_digit :: "char \<Rightarrow> bool" where
  "is_digit c = (let n = code c in 48 \<le> n \<and> n \<le> 57)"

definition is_word :: "char \<Rightarrow> bool" where
  "is_word c = (let n = code c in
     (48 \<le> n \<and> n \<le> 57) \<or> (65 \<le> n \<and> n \<le> 90) \<or> n = 95 \<or> (97 \<le> n \<and> n \<le> 122)
     \<or> n = 170 \<or> n = 178 \<or> n = 179 \<or> n = 181 \<or> n = 185 \<or> n = 186
     \<or> (188 \<le> n \<and> n \<le> 190) \<or> (192 \<le> n \<and> n \<le> 214) \<or> (216 \<le> n \<and> n \<le> 246)
     \<or> 248 \<le> n)"

definition any_char :: "char \<Rightarrow> bool" where
  "any_char c = (c \<noteq> newline)"

definition is_char :: "char \<Rightarrow> char \<Rightarrow> bool" where
  "is_char a c = (c = a)"

definition not_char :: "char \<Rightarrow> char \<Rightarrow> bool" where
  "not_char a c = (c \<noteq> a)"

definition one_of :: "string \<Rightarrow> char \<Rightarrow> bool" where
  "one_of cs c = (c \<in> set cs)"

definition strip :: "string \<Rightarrow> string" where
  "strip s = rev (dropWhile is_space (rev (dropWhile is_space s)))"

definition lstrip_chars :: "string \<Rightarrow> string \<Rightarrow> string" where
  "lstrip_chars cs s = dropWhile (one_of cs) s"

text \<open>\<open>s[a:b]\<close> on a list, for \<open>0 \<le> a\<close> and \<open>0 \<le> b\<close>.\<close>

definition slice :: "'a list \<Rightarrow> nat \<Rightarrow> nat \<Rightarrow> 'a list" where
  "slice xs a b = take (b - a) (drop a xs)"

text \<open>\<open>s.split(' ')\<close>: every single space separates, empty pieces are kept.\<close>

fun split_on :: "char \<Rightarrow> string \<Rightarrow> string list" where
  "split_on d [] = [[]]"
| "split_on d (c # cs) =
     (if c = d then [] # split_on d cs
      else (case split_on d cs of [] \<Rightarrow> [[c]] | w # ws \<Rightarrow> (c # w) # ws))"

text \<open>\<open>s.splitlines()\<close>: the line boundaries of Python on this range of code points.\<close>

definition is_linebreak :: "char \<Rightarrow> bool" where
  "is_linebreak c = (let n = code c in (10 \<le> n \<and> n \<le> 13) \<or> (28 \<le> n \<and> n \<le> 30) \<or> n = 133)"

fun splitlines_from :: "string \<Rightarrow> string \<Rightarrow> string list" where
  "splitlines_from cur [] = (if cur = [] then [] else [rev cur])"
| "splitlines_from cur [c] =
     (if is_linebreak c then [rev cur] else [rev (c # cur)])"
| "splitlines_from cur (c # d # cs) =
     (if c = CHR 0x0D \<and> d = CHR 0x0A then rev cur # splitlines_from [] cs
      else if is_linebreak c then rev cur # splitlines_from [] (d # cs)
      else splitlines_from (c # cur) (d # cs))"

definition splitlines :: "string \<Rightarrow> string list" where
  "splitlines s = splitlines_from [] s"

text \<open>\<open>s.replace(old, new)\<close> and \<open>s.replace(old, new, 1)\<close>.\<close>

function replace_all :: "string \<Rightarrow> string \<Rightarrow> string \<Rightarrow> string" where
  "replace_all old new s =
     (if old = [] then new @ concat (map (\<lambda>c. c # new) s)
      else if s = [] then []
      else if prefix old s then new @ replace_all old new (drop (length old) s)
      else hd s # replace_all old new (tl s))"
  by pat_completeness auto
termination
  by (relation "measure (\<lambda>(old, new, s). length s)") auto

declare replace_all.simps [simp del]

fun replace_first :: "string \<Rightarrow> string \<Rightarrow> string \<Rightarrow> string" where
  "replace_first old new [] = (if old = [] then new else [])"
| "replace_first old new (c # cs) =
     (if prefix old (c # cs) then new @ drop (length old) (c # cs)
      else c # replace_first old new cs)"

section \<open>Regular expressions of the source\<close>

text \<open>
  The patterns of the program are written in the fragment below of Python's \<open>re\<close>
  syntax, and matched the way \<open>re\<close> does: leftmost, alternatives in order, greedy or
  lazy repetition with backtracking.  A repetition always ranges over a class of single
  characters, which is all the program uses.

  \<^item> \<open>Lit w\<close>: the literal text \<open>w\<close>;
  \<^item> \<open>One p\<close>: one character of class \<open>p\<close>;
  \<^item> \<open>Rep p lo hi greedy\<close>: between \<open>lo\<close> and \<open>hi\<close> (\<open>None\<close>: unbounded) characters of
    class \<open>p\<close>, as many as possible first when \<open>greedy\<close>, as few as possible otherwise;
  \<^item> \<open>Cat a b\<close>: \<open>a\<close> then \<open>b\<close>; \<open>Alt a b\<close>: \<open>a|b\<close>; \<open>Grp n a\<close>: capture group \<open>n\<close>;
  \<^item> \<open>NotBehind p\<close>, \<open>NotAhead p\<close>: \<open>(?<!c)\<close> and \<open>(?!c)\<close> for one character;
  \<^item> \<open>Bol\<close>, \<open>Eol\<close>: \<open>^\<close> and \<open>$\<close> without the MULTILINE flag.
\<close>

datatype rx =
    Lit string
  | One "char \<Rightarrow> bool"
  | Rep "char \<Rightarrow> bool" nat "nat option" bool
  | Cat rx rx
  | Alt rx rx
  | Grp nat rx
  | NotBehind "char \<Rightarrow> bool"
  | NotAhead "char \<Rightarrow> bool"
  | Bol
  | Eol

text \<open>
  The state of a match attempt: the text before the current position, reversed (for
  look-behind and \<open>^\<close>), the text from the current position on, and the groups
  captured so far.
\<close>

type_synonym groups = "nat \<Rightarrow> string option"
type_synonym mstate = "string \<times> string \<times> groups"

fun rep :: "bool \<Rightarrow> (char \<Rightarrow> bool) \<Rightarrow> nat \<Rightarrow> nat option \<Rightarrow> (string \<Rightarrow> string \<Rightarrow> 'a option)
    \<Rightarrow> string \<Rightarrow> string \<Rightarrow> 'a option" where
  "rep greedy p lo hi k pre [] = (if lo = 0 then k pre [] else None)"
| "rep greedy p lo hi k pre (c # cs) =
     (if greedy then
        (case (if p c \<and> hi \<noteq> Some 0
               then rep greedy p (lo - 1) (map_option (\<lambda>h. h - 1) hi) k (c # pre) cs
               else None) of
           Some r \<Rightarrow> Some r
         | None \<Rightarrow> (if lo = 0 then k pre (c # cs) else None))
      else
        (case (if lo = 0 then k pre (c # cs) else None) of
           Some r \<Rightarrow> Some r
         | None \<Rightarrow> (if p c \<and> hi \<noteq> Some 0
               then rep greedy p (lo - 1) (map_option (\<lambda>h. h - 1) hi) k (c # pre) cs
               else None)))"

primrec m :: "rx \<Rightarrow> (mstate \<Rightarrow> 'a option) \<Rightarrow> mstate \<Rightarrow> 'a option" where
  "m (Lit w) k st =
     (case st of (pre, s, g) \<Rightarrow>
        if prefix w s then k (rev w @ pre, drop (length w) s, g) else None)"
| "m (One p) k st =
     (case st of (pre, s, g) \<Rightarrow>
        (case s of [] \<Rightarrow> None | c # cs \<Rightarrow> if p c then k (c # pre, cs, g) else None))"
| "m (Rep p lo hi greedy) k st =
     (case st of (pre, s, g) \<Rightarrow> rep greedy p lo hi (\<lambda>pre' s'. k (pre', s', g)) pre s)"
| "m (Cat a b) k st = m a (m b k) st"
| "m (Alt a b) k st = (case m a k st of Some r \<Rightarrow> Some r | None \<Rightarrow> m b k st)"
| "m (Grp n a) k st =
     (case st of (pre, s, g) \<Rightarrow>
        m a (\<lambda>st'. case st' of (pre', s', g') \<Rightarrow>
               k (pre', s', g'(n \<mapsto> take (length s - length s') s))) st)"
| "m (NotBehind p) k st =
     (case st of (pre, s, g) \<Rightarrow>
        (case pre of [] \<Rightarrow> k st | c # _ \<Rightarrow> if p c then None else k st))"
| "m (NotAhead p) k st =
     (case st of (pre, s, g) \<Rightarrow>
        (case s of [] \<Rightarrow> k st | c # _ \<Rightarrow> if p c then None else k st))"
| "m Bol k st = (case st of (pre, s, g) \<Rightarrow> if pre = [] then k st else None)"
| "m Eol k st =
     (case st of (pre, s, g) \<Rightarrow> if s = [] \<or> s = [newline] then k st else None)"

text \<open>A sequence of items.\<close>

fun seq :: "rx list \<Rightarrow> rx" where
  "seq [] = Lit []"
| "seq [a] = a"
| "seq (a # b # cs) = Cat a (seq (b # cs))"

text \<open>
  A match of \<open>r\<close> that starts right after \<open>pre\<close> (reversed) at the head of \<open>s\<close>:
  the number of characters matched and the groups.
\<close>

definition match_here :: "rx \<Rightarrow> string \<Rightarrow> string \<Rightarrow> (nat \<times> groups) option" where
  "match_here r pre s =
     m r (\<lambda>st. case st of (pre', s', g) \<Rightarrow> Some (length s - length s', g)) (pre, s, Map.empty)"

text \<open>\<open>re.match(r, s)\<close>: a match at the start of \<open>s\<close>.\<close>

definition re_match :: "rx \<Rightarrow> string \<Rightarrow> groups option" where
  "re_match r s = map_option snd (match_here r [] s)"

text \<open>\<open>match.group(n)\<close>; a group that took no part in the match expands to the empty text.\<close>

definition grp :: "groups \<Rightarrow> nat \<Rightarrow> string" where
  "grp g n = (case g n of Some w \<Rightarrow> w | None \<Rightarrow> [])"

text \<open>
  \<open>re.findall(r, s)\<close> for a pattern without groups and \<open>re.sub(r, repl, s)\<close>: the
  non-overlapping matches from left to right.  After a match the search goes on at its
  end; after an empty match one character is passed over.
\<close>

function findall_from :: "rx \<Rightarrow> string \<Rightarrow> string \<Rightarrow> string list" where
  "findall_from r pre s =
     (case match_here r pre s of
        Some (n, g) \<Rightarrow>
          (if n = 0 \<or> length s < n then
             [] # (case s of [] \<Rightarrow> [] | c # cs \<Rightarrow> findall_from r (c # pre) cs)
           else take n s # findall_from r (rev (take n s) @ pre) (drop n s))
      | None \<Rightarrow> (case s of [] \<Rightarrow> [] | c # cs \<Rightarrow> findall_from r (c # pre) cs))"
  by pat_completeness auto
termination
  by (relation "measure (\<lambda>(r, pre, s). length s)") auto

declare findall_from.simps [simp del]

definition findall :: "rx \<Rightarrow> string \<Rightarrow> string list" where
  "findall r s = findall_from r [] s"

function sub_from :: "rx \<Rightarrow> (groups \<Rightarrow> string) \<Rightarrow> string \<Rightarrow> string \<Rightarrow> string" where
  "sub_from r repl pre s =
     (case match_here r pre s of
        Some (n, g) \<Rightarrow>
          (if n = 0 \<or> length s < n then
             repl g @ (case s of [] \<Rightarrow> [] | c # cs \<Rightarrow> c # sub_from r repl (c # pre) cs)
           else repl g @ sub_from r repl (rev (take n s) @ pre) (drop n s))
      | None \<Rightarrow> (case s of [] \<Rightarrow> [] | c # cs \<Rightarrow> c # sub_from r repl (c # pre) cs))"
  by pat_completeness auto
termination
  by (relation "measure (\<lambda>(r, repl, pre, s). length s)") auto

declare sub_from.simps [simp del]

definition re_sub :: "rx \<Rightarrow> (groups \<Rightarrow> string) \<Rightarrow> string \<Rightarrow> string" where
  "re_sub r repl s = sub_from r repl [] s"

section \<open>The line classifier\<close>

definition hash :: "char \<Rightarrow> bool" where
  "hash = is_char CHR ''#''"

text \<open>\<open>^(#{level})\s(.*)\<close> when a level is given, \<open>^(#{1,3})\s(.*)\<close> otherwise.\<close>

definition header_rx :: "nat option \<Rightarrow> rx" where
  "header_rx level =
     seq [Bol,
          Grp 1 (case level of
                   Some n \<Rightarrow> if n \<noteq> 0 then Rep hash n (Some n) True else Rep hash 1 (Some 3) True
                 | None \<Rightarrow> Rep hash 1 (Some 3) True),
          One is_space,
          Grp 2 (Rep any_char 0 None True)]"

definition detect_header :: "string \<Rightarrow> nat option \<Rightarrow> (nat \<times> string) option" where
  "detect_header line level =
     (case re_match (header_rx level) line of
        Some g \<Rightarrow> Some (length (grp g 1), grp g 2)
      | None \<Rightarrow> None)"

text \<open>\<open>^\[\^(.+?)]:(.*)\<close>\<close>

definition footnote_rx :: rx where
  "footnote_rx =
     seq [Bol, Lit ''[^'', Grp 1 (Rep any_char 1 None False), Lit '']:'',
          Grp 2 (Rep any_char 0 None True)]"

definition detect_footnote :: "string \<Rightarrow> (string \<times> string) option" where
  "detect_footnote line =
     (case re_match footnote_rx line of
        Some g \<Rightarrow> Some (grp g 1, strip (grp g 2))
      | None \<Rightarrow> None)"

text \<open>\<open>^#{4}\s(.*)\<close>\<close>

definition command_rx :: rx where
  "command_rx = seq [Bol, Rep hash 4 (Some 4) True, One is_space, Grp 1 (Rep any_char 0 None True)]"

definition detect_command :: "string \<Rightarrow> string option" where
  "detect_command line =
     (case re_match command_rx line of Some g \<Rightarrow> Some (grp g 1) | None \<Rightarrow> None)"

text \<open>
  Where the source tests the result of a detector as a condition, Python's truth value
  decides: \<open>False\<close> and the empty text count as false, every other result as true.
\<close>

definition truthy :: "string option \<Rightarrow> bool" where
  "truthy r = (case r of Some w \<Rightarrow> w \<noteq> [] | None \<Rightarrow> False)"

text \<open>\<open>^!\[\[(.+\.png|.+\.jpg)\]\](.*)$\<close>, on the stripped line.\<close>

definition figure_rx :: rx where
  "figure_rx =
     seq [Bol, Lit ''![['',
          Grp 1 (Alt (Cat (Rep any_char 1 None True) (Lit ''.png''))
                     (Cat (Rep any_char 1 None True) (Lit ''.jpg''))),
          Lit '']]'', Grp 2 (Rep any_char 0 None True), Eol]"

definition detect_figure :: "string \<Rightarrow> string list option" where
  "detect_figure line =
     (case re_match figure_rx (strip line) of
        Some g \<Rightarrow>
          (let name = grp g 1;
               settings = (if grp g 2 = [] then [] else split_on CHR '' '' (grp g 2))
           in Some ([name] @ settings))
      | None \<Rightarrow> None)"

text \<open>\<open>`eq_label:(\S.*)`\<close>, on the stripped line.\<close>

definition labeled_equation_rx :: rx where
  "labeled_equation_rx =
     seq [Lit ''`eq_label:'', Grp 1 (Cat (One non_space) (Rep any_char 0 None True)), Lit ''`'']"

definition detect_labeled_equation :: "string \<Rightarrow> string option" where
  "detect_labeled_equation line =
     (case re_match labeled_equation_rx (strip line) of
        Some g \<Rightarrow> Some (''eq:'' @ strip (grp g 1))
      | None \<Rightarrow> None)"

definition is_comment :: "string \<Rightarrow> string option" where
  "is_comment line = detect_command line"

definition is_equation_dollars :: "string \<Rightarrow> bool" where
  "is_equation_dollars line = (take 2 (strip line) = ''$$'')"

definition is_list_item :: "string \<Rightarrow> bool" where
  "is_list_item line = (if length (strip line) = 0 then False else hd (strip line) = CHR ''-'')"

definition is_quote :: "string \<Rightarrow> bool" where
  "is_quote line = (if length (strip line) = 0 then False else hd (strip line) = CHR ''>'')"

definition is_ignore_line :: "string \<Rightarrow> bool" where
  "is_ignore_line line = (length (strip line) = 0 \<or> truthy (is_comment line))"

definition is_separator_line :: "string \<Rightarrow> bool" where
  "is_separator_line line = (strip line = ''---'')"

definition is_end_paragraph :: "string \<Rightarrow> bool" where
  "is_end_paragraph line =
     (is_ignore_line line \<or> is_separator_line line \<or> is_equation_dollars line
      \<or> is_list_item line \<or> is_quote line \<or> truthy (detect_command line)
      \<or> detect_labeled_equation line \<noteq> None \<or> detect_header line None \<noteq> None)"

text \<open>The first index from \<open>start\<close> on whose element satisfies \<open>expr\<close>, else the length.\<close>

function find_next_index :: "'a list \<Rightarrow> ('a \<Rightarrow> bool) \<Rightarrow> nat \<Rightarrow> nat" where
  "find_next_index lst expr i =
     (if i < length lst then (if expr (lst ! i) then i else find_next_index lst expr (i + 1))
      else length lst)"
  by pat_completeness auto
termination
  by (relation "measure (\<lambda>(lst, expr, i). length lst - i)") auto

declare find_next_index.simps [simp del]

section \<open>The block scanner\<close>

text \<open>
  The block classes live outside this module; a block is the record of the constructor
  the scanner calls and of its arguments.  \<open>'f\<close> is the type of the figure path handed
  through to \<open>Section\<close> and \<open>Figure\<close>.
\<close>

datatype 'f block =
    Section nat string "string list" 'f
  | Equation "string list" "string option"
  | List_block "string list"
  | Quote "string list"
  | Figure "string list" string string 'f
  | Footnote string "string list"
  | Paragraph "string list"

datatype error = AssertionError string | IndexError

text \<open>The branches of the detector chain, in the order of the source.\<close>

datatype branch =
    Ignore_line | Separator | Header | Unlabeled_equation | Labeled_equation
  | List_item | Quote_line | Figure_embed | Footnote_def | Paragraph_default

text \<open>
  One pass through the loop body at pointer \<open>i\<close>: either the branch taken, the block
  built (if any), the new pointer and the new ignore flag, or the exception raised.
\<close>

datatype 'f outcome =
    Advance branch "'f block option" nat bool
  | Raise branch error

text \<open>\<open>^`(.*?)`:(.*)\<close>, the caption line of a figure.\<close>

definition caption_rx :: rx where
  "caption_rx =
     seq [Bol, Lit ''`'', Grp 1 (Rep any_char 0 None False), Lit ''`:'',
          Grp 2 (Rep any_char 0 None True)]"

definition equation_message :: string where
  "equation_message = ''Equation dollars must be alone in a line''"

definition figure_message :: "string \<Rightarrow> string" where
  "figure_message name = ''Caption of figure <'' @ name @ ''> badly formed''"

definition scan_step :: "string list \<Rightarrow> 'f \<Rightarrow> nat \<Rightarrow> bool \<Rightarrow> 'f outcome" where
  "scan_step text_lines fig_path i is_ignoring =
    (if is_ignore_line (text_lines ! i) then
       Advance Ignore_line None (i + 1) is_ignoring
     else if is_separator_line (text_lines ! i) then
       Advance Separator None (i + 1) (\<not> is_ignoring)
     else case detect_header (text_lines ! i) None of
       Some (h_level, title) \<Rightarrow>
         (let end_section_i =
                find_next_index text_lines (\<lambda>l. detect_header l (Some h_level) \<noteq> None) (i + 1)
          in Advance Header
               (Some (Section h_level title (slice text_lines (i + 1) end_section_i) fig_path))
               end_section_i is_ignoring)
     | None \<Rightarrow>
     if is_equation_dollars (text_lines ! i) then
       (let end_equation_i = find_next_index text_lines is_equation_dollars (i + 1)
        in Advance Unlabeled_equation
             (Some (Equation (slice text_lines (i + 1) end_equation_i) None))
             (end_equation_i + 1) is_ignoring)
     else case detect_labeled_equation (text_lines ! i) of
       Some label \<Rightarrow>
         (if length text_lines \<le> i + 1 then Raise Labeled_equation IndexError
          else if \<not> is_equation_dollars (text_lines ! (i + 1)) then
            Raise Labeled_equation (AssertionError equation_message)
          else
            (let i1 = i + 1;
                 end_equation_i = find_next_index text_lines is_equation_dollars (i1 + 1)
             in Advance Labeled_equation
                  (Some (Equation (slice text_lines (i1 + 1) end_equation_i) (Some label)))
                  (end_equation_i + 1) is_ignoring))
     | None \<Rightarrow>
     if is_list_item (text_lines ! i) then
       (let end_list_i = find_next_index text_lines (\<lambda>l. \<not> is_list_item l) (i + 1)
        in Advance List_item (Some (List_block (slice text_lines i end_list_i)))
             end_list_i is_ignoring)
     else if is_quote (text_lines ! i) then
       (let end_quote_i = find_next_index text_lines (\<lambda>l. \<not> is_quote l) (i + 1)
        in Advance Quote_line
             (Some (Quote (map (lstrip_chars ''> '') (slice text_lines i end_quote_i))))
             end_quote_i is_ignoring)
     else case detect_figure (text_lines ! i) of
       Some settings \<Rightarrow>
         (if length text_lines \<le> i + 1 then Raise Figure_embed IndexError
          else case re_match caption_rx (text_lines ! (i + 1)) of
            None \<Rightarrow> Raise Figure_embed (AssertionError (figure_message (hd settings)))
          | Some alt_data \<Rightarrow>
              Advance Figure_embed
                (Some (Figure settings (strip (grp alt_data 1)) (strip (grp alt_data 2)) fig_path))
                (i + 2) is_ignoring)
     | None \<Rightarrow>
     case detect_footnote (text_lines ! i) of
       Some footnote_match \<Rightarrow>
         Advance Footnote_def (Some (Footnote (fst footnote_match) [snd footnote_match]))
           (i + 1) is_ignoring
     | None \<Rightarrow>
       (let end_paragraph_i = find_next_index text_lines is_end_paragraph (i + 1)
        in Advance Paragraph_default (Some (Paragraph (slice text_lines i end_paragraph_i)))
             end_paragraph_i is_ignoring))"

lemma find_next_index_ge:
  "start \<le> length lst \<Longrightarrow> start \<le> find_next_index lst expr start"
proof (induction lst expr start rule: find_next_index.induct)
  case (1 lst expr i)
  show ?case
  proof (cases "i < length lst \<and> \<not> expr (lst ! i)")
    case True
    with "1.IH" have "i + 1 \<le> find_next_index lst expr (i + 1)" by simp
    with True show ?thesis by (simp add: find_next_index.simps [of lst expr i])
  next
    case False
    with "1.prems" show ?thesis by (auto simp: find_next_index.simps [of lst expr i])
  qed
qed

lemma find_next_index_le: "find_next_index lst expr start \<le> length lst"
proof (induction lst expr start rule: find_next_index.induct)
  case (1 lst expr i)
  show ?case
  proof (cases "i < length lst \<and> \<not> expr (lst ! i)")
    case True
    with "1.IH" show ?thesis by (simp add: find_next_index.simps [of lst expr i])
  next
    case False
    then show ?thesis by (auto simp: find_next_index.simps [of lst expr i])
  qed
qed

lemma find_next_index_gt:
  "i < length lst \<Longrightarrow> i < find_next_index lst expr (Suc i)"
  using find_next_index_ge [of "Suc i" lst expr] by simp

lemma scan_step_advances:
  assumes "scan_step text_lines fig_path i ign = Advance br b i' ign'"
    and "i < length text_lines"
  shows "i < i'"
proof -
  have a: "\<And>expr. i < find_next_index text_lines expr (Suc i)"
    using assms(2) by (rule find_next_index_gt)
  have b: "\<And>expr. i < find_next_index text_lines expr (Suc (Suc i))"
    using find_next_index_ge [of "Suc (Suc i)" text_lines] assms(2)
    by (metis Suc_leI Suc_le_lessD find_next_index.simps lessI less_or_eq_imp_le not_less)
  from assms(1) show ?thesis
    unfolding scan_step_def Let_def
    by (auto split: if_splits option.splits prod.splits simp: a b less_SucI)
qed

text \<open>
  The loop of \<open>to_blocks\<close>.  Each block gets the parent handle \<open>parent\<close> and is
  appended unless the ignore flag is set.  The result is the exception raised, or the
  blocks together with the flag at the end of the scan, on which the warning about a
  missing separator is printed.
\<close>

function scan :: "string list \<Rightarrow> 'f \<Rightarrow> 'p \<Rightarrow> nat \<Rightarrow> bool \<Rightarrow> ('f block \<times> 'p) list
    \<Rightarrow> error + (('f block \<times> 'p) list \<times> bool)" where
  "scan text_lines fig_path parent i is_ignoring content_blocks =
     (if i < length text_lines then
        (case scan_step text_lines fig_path i is_ignoring of
           Raise br e \<Rightarrow> Inl e
         | Advance br block i' is_ignoring' \<Rightarrow>
             scan text_lines fig_path parent i' is_ignoring'
               (case block of
                  None \<Rightarrow> content_blocks
                | Some b \<Rightarrow>
                    if \<not> is_ignoring' then content_blocks @ [(b, parent)] else content_blocks))
      else Inr (content_blocks, is_ignoring))"
  by pat_completeness auto
termination
  by (relation "measure (\<lambda>(text_lines, fig_path, parent, i, ign, acc). length text_lines - i)")
    (auto dest: scan_step_advances)

declare scan.simps [simp del]

definition to_blocks :: "string list \<Rightarrow> 'f \<Rightarrow> 'p
    \<Rightarrow> error + (('f block \<times> 'p) list \<times> bool)" where
  "to_blocks text_lines fig_path parent = scan text_lines fig_path parent 0 False []"

text \<open>A single text is split into its lines first.\<close>

definition to_blocks_str :: "string \<Rightarrow> 'f \<Rightarrow> 'p \<Rightarrow> error + (('f block \<times> 'p) list \<times> bool)" where
  "to_blocks_str text fig_path parent = to_blocks (splitlines text) fig_path parent"

section \<open>Facts about matching and stripping\<close>

lemma rep_sound:
  "rep gr p lo hi k pre s = Some r \<Longrightarrow>
     \<exists>u v. s = u @ v \<and> (\<forall>c\<in>set u. p c) \<and> lo \<le> length u
       \<and> (\<forall>h. hi = Some h \<longrightarrow> length u \<le> h) \<and> k (rev u @ pre) v = Some r"
proof (induction s arbitrary: lo hi pre)
  case Nil
  then show ?case by (auto split: if_splits)
next
  case (Cons c cs)
  let ?more = "if p c \<and> hi \<noteq> Some 0
     then rep gr p (lo - 1) (map_option (\<lambda>h. h - 1) hi) k (c # pre) cs else None"
  let ?stop = "if lo = 0 then k pre (c # cs) else None"
  from Cons.prems have "?more = Some r \<or> ?stop = Some r"
    by (auto split: if_splits option.splits)
  then show ?case
  proof
    assume a: "?more = Some r"
    then have pc: "p c" and hi: "hi \<noteq> Some 0"
      and rec: "rep gr p (lo - 1) (map_option (\<lambda>h. h - 1) hi) k (c # pre) cs = Some r"
      by (auto split: if_splits)
    from Cons.IH [OF rec] obtain u v where uv: "cs = u @ v" "\<forall>c\<in>set u. p c"
      "lo - 1 \<le> length u" "\<forall>h. map_option (\<lambda>h. h - 1) hi = Some h \<longrightarrow> length u \<le> h"
      "k (rev u @ c # pre) v = Some r" by (elim exE conjE) (rule that, assumption+)
    have "c # cs = (c # u) @ v \<and> (\<forall>x\<in>set (c # u). p x) \<and> lo \<le> length (c # u)
       \<and> (\<forall>h. hi = Some h \<longrightarrow> length (c # u) \<le> h) \<and> k (rev (c # u) @ pre) v = Some r"
      using uv pc hi by (cases hi) auto
    then show ?thesis by (rule_tac x = "c # u" in exI, rule_tac x = v in exI)
  next
    assume "?stop = Some r"
    then have "lo = 0" "k pre (c # cs) = Some r" by (auto split: if_splits)
    then have "c # cs = [] @ (c # cs) \<and> (\<forall>x\<in>set []. p x) \<and> lo \<le> length ([]::string)
       \<and> (\<forall>h. hi = Some h \<longrightarrow> length ([]::string) \<le> h) \<and> k (rev [] @ pre) (c # cs) = Some r"
      by simp
    then show ?thesis by (rule_tac x = "[]" in exI, rule_tac x = "c # cs" in exI)
  qed
qed

lemma dropWhile_snoc_keep:
  "\<not> P c \<Longrightarrow> \<exists>ys. dropWhile P (xs @ [c]) = ys @ [c]"
  by (induction xs) auto

lemma dropWhile_rev_hd:
  assumes "\<not> P c"
  shows "\<exists>ys. rev (dropWhile P (rev (c # cs))) = c # ys"
proof -
  from dropWhile_snoc_keep [of P c "rev cs", OF assms]
  obtain ys where ys: "dropWhile P (rev cs @ [c]) = ys @ [c]" ..
  have "rev (dropWhile P (rev (c # cs))) = rev (ys @ [c])"
    by (simp only: rev.simps ys)
  then have "rev (dropWhile P (rev (c # cs))) = c # rev ys"
    by (simp only: rev_append rev.simps append.simps)
  then show ?thesis by (rule exI)
qed

lemma strip_hd_non_space:
  assumes "strip s \<noteq> []"
  shows "\<not> is_space (hd (strip s))"
proof -
  let ?t = "dropWhile is_space s"
  have t: "?t \<noteq> []"
  proof
    assume "?t = []"
    then have "strip s = []" by (simp only: strip_def rev.simps dropWhile.simps)
    with assms show False by simp
  qed
  then have nsp: "\<not> is_space (hd ?t)" by (rule hd_dropWhile)
  from t obtain c cs where tc: "?t = c # cs" by (cases ?t) auto
  with nsp have nc: "\<not> is_space c" by simp
  from dropWhile_rev_hd [of is_space c cs, OF nc]
  obtain ys where "rev (dropWhile is_space (rev (c # cs))) = c # ys" ..
  with tc have "strip s = c # ys" by (simp only: strip_def)
  with nc show ?thesis by simp
qed

lemma strip_Cons_non_space:
  assumes "\<not> is_space c"
  shows "\<exists>ys. strip (c # cs) = c # ys"
proof -
  from assms have "dropWhile is_space (c # cs) = c # cs" by simp
  then have "strip (c # cs) = rev (dropWhile is_space (rev (c # cs)))"
    by (simp only: strip_def)
  with dropWhile_rev_hd [of is_space c cs, OF assms] show ?thesis by simp
qed

lemma hash_code [simp]: "hash c = (c = CHR ''#'')"
  by (simp add: hash_def is_char_def)

lemma not_space_chars [simp]:
  "\<not> is_space CHR ''#''" "\<not> is_space CHR ''-''" "\<not> is_space CHR ''$''"
  "\<not> is_space CHR 0x60" "\<not> is_space CHR ''!''" "\<not> is_space CHR ''>''"
  "\<not> is_space CHR ''[''"
  by (simp_all add: is_space_def code_def)

lemma strip_hd_keep:
  assumes "s \<noteq> []" "\<not> is_space (hd s)"
  shows "strip s \<noteq> [] \<and> hd (strip s) = hd s"
proof -
  from assms(1) obtain c cs where s: "s = c # cs" by (cases s) auto
  with assms(2) have "\<not> is_space c" by simp
  from strip_Cons_non_space [of c cs, OF this] obtain ys where "strip (c # cs) = c # ys" ..
  with s show ?thesis by simp
qed

lemma labeled_equation_prefix:
  assumes "detect_labeled_equation line = Some label"
  shows "prefix ''`eq_label:'' (strip line)"
  using assms
  unfolding detect_labeled_equation_def re_match_def match_here_def labeled_equation_rx_def
  by (simp split: option.splits if_splits)

lemma figure_prefix:
  assumes "detect_figure line = Some settings"
  shows "prefix ''![['' (strip line)"
  using assms
  unfolding detect_figure_def re_match_def match_here_def figure_rx_def
  by (simp split: option.splits if_splits)

lemma footnote_prefix:
  assumes "detect_footnote line = Some fm"
  shows "prefix ''[^'' line"
  using assms
  unfolding detect_footnote_def re_match_def match_here_def footnote_rx_def
  by (simp split: option.splits if_splits)

text \<open>
  What a successful match says about the text, as a relation between the state before
  and the state after a pattern: a tool for proofs, read off the matcher.
\<close>

primrec sem :: "rx \<Rightarrow> mstate \<Rightarrow> mstate \<Rightarrow> bool" where
  "sem (Lit w) st st' =
     (case st of (pre, s, g) \<Rightarrow> prefix w s \<and> st' = (rev w @ pre, drop (length w) s, g))"
| "sem (One p) st st' =
     (case st of (pre, s, g) \<Rightarrow> \<exists>c cs. s = c # cs \<and> p c \<and> st' = (c # pre, cs, g))"
| "sem (Rep p lo hi greedy) st st' =
     (case st of (pre, s, g) \<Rightarrow>
        \<exists>u v. s = u @ v \<and> (\<forall>c\<in>set u. p c) \<and> lo \<le> length u
          \<and> (case hi of None \<Rightarrow> True | Some h \<Rightarrow> length u \<le> h)
          \<and> st' = (rev u @ pre, v, g))"
| "sem (Cat a b) st st' = (\<exists>st1. sem a st st1 \<and> sem b st1 st')"
| "sem (Alt a b) st st' = (sem a st st' \<or> sem b st st')"
| "sem (Grp n a) st st' =
     (case st of (pre, s, g) \<Rightarrow>
        \<exists>pre1 s1 g1. sem a st (pre1, s1, g1)
          \<and> st' = (pre1, s1, g1(n \<mapsto> take (length s - length s1) s)))"
| "sem (NotBehind p) st st' =
     (case st of (pre, s, g) \<Rightarrow> st' = st \<and> (pre = [] \<or> \<not> p (hd pre)))"
| "sem (NotAhead p) st st' =
     (case st of (pre, s, g) \<Rightarrow> st' = st \<and> (s = [] \<or> \<not> p (hd s)))"
| "sem Bol st st' = (case st of (pre, s, g) \<Rightarrow> st' = st \<and> pre = [])"
| "sem Eol st st' = (case st of (pre, s, g) \<Rightarrow> st' = st \<and> (s = [] \<or> s = [newline]))"

lemma m_sound: "m r k st = Some res \<Longrightarrow> \<exists>st'. sem r st st' \<and> k st' = Some res"
proof (induction r arbitrary: k st)
  case (Lit w)
  then show ?case by (cases st) (auto split: if_splits)
next
  case (One p)
  then show ?case by (cases st) (auto split: if_splits list.splits)
next
  case (Rep p lo hi greedy)
  obtain pre s g where st: "st = (pre, s, g)" by (cases st)
  with Rep have "rep greedy p lo hi (\<lambda>pre' s'. k (pre', s', g)) pre s = Some res" by simp
  from rep_sound [OF this] obtain u v where
    "s = u @ v \<and> (\<forall>c\<in>set u. p c) \<and> lo \<le> length u
       \<and> (\<forall>h. hi = Some h \<longrightarrow> length u \<le> h) \<and> k (rev u @ pre, v, g) = Some res"
    by (elim exE)
  then have "sem (Rep p lo hi greedy) st (rev u @ pre, v, g) \<and> k (rev u @ pre, v, g) = Some res"
    unfolding st by (auto split: option.splits)
  then show ?case by (rule exI)
next
  case (Cat a b)
  from Cat.prems have "m a (m b k) st = Some res" by simp
  from Cat.IH(1) [OF this] obtain st1 where 1: "sem a st st1" "m b k st1 = Some res"
    by (elim exE conjE)
  from Cat.IH(2) [OF 1(2)] obtain st2 where 2: "sem b st1 st2" "k st2 = Some res"
    by (elim exE conjE)
  from 1(1) 2(1) have "\<exists>st1. sem a st st1 \<and> sem b st1 st2"
    by (intro exI [of _ st1] conjI)
  then have "sem (Cat a b) st st2" by (simp only: sem.simps)
  then have "sem (Cat a b) st st2 \<and> k st2 = Some res" using 2(2) by (rule conjI)
  then show ?case by (rule exI)
next
  case (Alt a b)
  from Alt.prems have "m a k st = Some res \<or> m b k st = Some res"
    by (auto split: option.splits)
  then show ?case
  proof
    assume "m a k st = Some res"
    from Alt.IH(1) [OF this] obtain st' where "sem a st st'" "k st' = Some res"
      by (elim exE conjE)
    then have "sem (Alt a b) st st' \<and> k st' = Some res" by simp
    then show ?thesis by (rule exI)
  next
    assume "m b k st = Some res"
    from Alt.IH(2) [OF this] obtain st' where "sem b st st'" "k st' = Some res"
      by (elim exE conjE)
    then have "sem (Alt a b) st st' \<and> k st' = Some res" by simp
    then show ?thesis by (rule exI)
  qed
next
  case (Grp n a)
  obtain pre s g where st: "st = (pre, s, g)" by (cases st)
  define k' where "k' = (\<lambda>st'. case st' of (pre', s', g') \<Rightarrow>
               k (pre', s', g'(n \<mapsto> take (length s - length s') s)))"
  from Grp.prems st have "m a k' st = Some res" by (simp add: k'_def)
  from Grp.IH [OF this] obtain st1 where 1: "sem a st st1" "k' st1 = Some res"
    by (elim exE conjE)
  obtain pre1 s1 g1 where st1: "st1 = (pre1, s1, g1)" by (cases st1)
  let ?st' = "(pre1, s1, g1(n \<mapsto> take (length s - length s1) s))"
  from 1 st1 st have "sem (Grp n a) st ?st' \<and> k ?st' = Some res"
    by (auto simp: k'_def)
  then show ?case by (rule exI)
next
  case (NotBehind p)
  then show ?case by (cases st) (auto split: if_splits list.splits)
next
  case (NotAhead p)
  then show ?case by (cases st) (auto split: if_splits list.splits)
next
  case Bol
  then show ?case by (cases st) (auto split: if_splits)
next
  case Eol
  then show ?case by (cases st) (auto split: if_splits)
qed

lemma match_here_sound:
  assumes "match_here r pre s = Some (n, g)"
  shows "\<exists>pre' s'. sem r (pre, s, Map.empty) (pre', s', g) \<and> n = length s - length s'"
proof -
  let ?k = "\<lambda>st. case st of (pre', s', g) \<Rightarrow> Some (length s - length s', g :: groups)"
  from assms have "m r ?k (pre, s, Map.empty) = Some (n, g)"
    unfolding match_here_def .
  from m_sound [OF this] obtain st' where 1: "sem r (pre, s, Map.empty) st'"
    "?k st' = Some (n, g)"
    by (elim exE conjE)
  obtain pre' s' g' where st': "st' = (pre', s', g')" by (cases st')
  with 1 have "sem r (pre, s, Map.empty) (pre', s', g) \<and> n = length s - length s'" by auto
  then show ?thesis by (intro exI)
qed

text \<open>The shape of a line that \<open>detect_command\<close> accepts.\<close>

lemma command_shape:
  assumes "detect_command line = Some cmd"
  shows "\<exists>c rest. line = ''####'' @ c # rest \<and> is_space c"
proof -
  from assms obtain n g where "match_here command_rx [] line = Some (n, g)"
    unfolding detect_command_def re_match_def by (auto split: option.splits)
  from match_here_sound [OF this] obtain u c rest
    where "line = u @ c # rest" "\<forall>c\<in>set u. c = CHR ''#''" "length u = 4" "is_space c"
    unfolding command_rx_def by auto
  then show ?thesis by (auto simp: length_Suc_conv numeral_eq_Suc)
qed

text \<open>The shape of a line that \<open>detect_header\<close> accepts.\<close>

lemma header_shape:
  assumes "detect_header line level = Some (h, title)"
  shows "\<exists>c rest. line = replicate h CHR ''#'' @ c # rest \<and> is_space c \<and> 1 \<le> h
     \<and> (case level of Some n \<Rightarrow> if n \<noteq> 0 then h = n else h \<le> 3 | None \<Rightarrow> h \<le> 3)"
proof -
  define lo where "lo = (case level of Some n \<Rightarrow> if n \<noteq> 0 then n else 1 | None \<Rightarrow> 1)"
  define hi where "hi = (case level of Some n \<Rightarrow> if n \<noteq> 0 then n else 3 | None \<Rightarrow> 3)"
  have rx: "header_rx level =
     Cat Bol (Cat (Grp 1 (Rep hash lo (Some hi) True))
       (Cat (One is_space) (Grp 2 (Rep any_char 0 None True))))"
    by (auto simp: header_rx_def lo_def hi_def split: option.splits)
  from assms obtain g n where g: "match_here (header_rx level) [] line = Some (n, g)"
    and h: "h = length (grp g 1)"
    unfolding detect_header_def re_match_def by (auto split: option.splits)
  from match_here_sound [OF g] obtain u c rest
    where 1: "line = u @ c # rest" "\<forall>c\<in>set u. c = CHR ''#''" "lo \<le> length u" "length u \<le> hi"
      "is_space c" "g 1 = Some u"
    unfolding rx by auto
  from 1(2) have u: "u = replicate (length u) CHR ''#''"
    by (induction u) auto
  from 1(6) h have hu: "h = length u" by (simp add: grp_def)
  have "1 \<le> lo" by (auto simp: lo_def split: option.splits)
  with 1(3) hu have "1 \<le> h" by simp
  moreover have "case level of Some n \<Rightarrow> if n \<noteq> 0 then h = n else h \<le> 3 | None \<Rightarrow> h \<le> 3"
    using 1(3,4) hu by (auto simp: lo_def hi_def split: option.splits)
  moreover have "line = replicate h CHR ''#'' @ c # rest"
    using 1(1) u hu by simp
  ultimately show ?thesis using 1(5) by blast
qed

lemma command_first_char:
  assumes "detect_command line = Some cmd"
  shows "strip line \<noteq> [] \<and> hd (strip line) = CHR ''#''"
proof -
  from command_shape [OF assms] obtain c rest where "line = ''####'' @ c # rest" by blast
  then have "line \<noteq> []" "hd line = CHR ''#''" by auto
  with strip_hd_keep [of line] show ?thesis by simp
qed

lemma header_first_char:
  assumes "detect_header line level = Some (h, title)"
  shows "strip line \<noteq> [] \<and> hd (strip line) = CHR ''#''"
proof -
  from header_shape [OF assms] obtain c rest
    where "line = replicate h CHR ''#'' @ c # rest" "1 \<le> h" by blast
  then have "line \<noteq> []" "hd line = CHR ''#''" by (cases h; auto)+
  with strip_hd_keep [of line] show ?thesis by simp
qed

lemma ignore_first_char:
  assumes "is_ignore_line line"
  shows "strip line = [] \<or> hd (strip line) = CHR ''#''"
  using assms command_first_char [of line]
  by (auto simp: is_ignore_line_def is_comment_def truthy_def split: option.splits)

lemma separator_first_char:
  "is_separator_line line \<Longrightarrow> strip line \<noteq> [] \<and> hd (strip line) = CHR ''-''"
  by (simp add: is_separator_line_def)

lemma dollars_first_char:
  "is_equation_dollars line \<Longrightarrow> strip line \<noteq> [] \<and> hd (strip line) = CHR ''$''"
  by (cases "strip line") (auto simp: is_equation_dollars_def)

lemma list_first_char:
  "is_list_item line \<Longrightarrow> strip line \<noteq> [] \<and> hd (strip line) = CHR ''-''"
  by (auto simp: is_list_item_def split: if_splits)

lemma quote_first_char:
  "is_quote line \<Longrightarrow> strip line \<noteq> [] \<and> hd (strip line) = CHR ''>''"
  by (auto simp: is_quote_def split: if_splits)

lemma labeled_equation_first_char:
  assumes "detect_labeled_equation line = Some label"
  shows "strip line \<noteq> [] \<and> hd (strip line) = CHR 0x60"
  using labeled_equation_prefix [OF assms] by (cases "strip line") auto

lemma figure_first_char:
  assumes "detect_figure line = Some settings"
  shows "strip line \<noteq> [] \<and> hd (strip line) = CHR ''!''"
  using figure_prefix [OF assms] by (cases "strip line") auto

text \<open>A header line is neither a comment nor blank nor a separator.\<close>

lemma header_not_command:
  assumes "detect_header line level = Some (h, title)"
    and "case level of Some n \<Rightarrow> n \<le> 3 | None \<Rightarrow> True"
  shows "detect_command line = None"
proof (cases "detect_command line")
  case None
  then show ?thesis .
next
  case (Some cmd)
  from command_shape [OF Some] obtain c rest where 1: "line = ''####'' @ c # rest" by blast
  from header_shape [OF assms(1)] obtain c' rest'
    where 2: "line = replicate h CHR ''#'' @ c' # rest'" "is_space c'" "1 \<le> h"
      and 3: "case level of Some n \<Rightarrow> if n \<noteq> 0 then h = n else h \<le> 3 | None \<Rightarrow> h \<le> 3"
    by blast
  from 3 assms(2) have "h \<le> 3" by (auto split: option.splits if_splits)
  with 2(3) have "h = 1 \<or> h = 2 \<or> h = 3" by arith
  with 1 2 have "c' = CHR ''#''" by (auto simp: numeral_eq_Suc)
  with 2(2) show ?thesis by simp
qed

lemma header_not_ignore:
  assumes "detect_header line None = Some (h, title)"
  shows "\<not> is_ignore_line line" "\<not> is_separator_line line"
proof -
  from header_not_command [OF assms] have "detect_command line = None" by simp
  with header_first_char [OF assms] show "\<not> is_ignore_line line"
    by (simp add: is_ignore_line_def is_comment_def truthy_def)
  from header_first_char [OF assms] separator_first_char [of line]
  show "\<not> is_separator_line line" by auto
qed

lemma separator_not_ignore:
  assumes "is_separator_line line"
  shows "\<not> is_ignore_line line"
  using separator_first_char [OF assms] ignore_first_char [of line] by auto

lemma labeled_equation_reached:
  assumes "detect_labeled_equation line = Some label"
  shows "\<not> is_ignore_line line" "\<not> is_separator_line line" "detect_header line None = None"
    "\<not> is_equation_dollars line"
proof -
  note 1 = labeled_equation_first_char [OF assms]
  from 1 ignore_first_char [of line] show "\<not> is_ignore_line line" by auto
  from 1 separator_first_char [of line] show "\<not> is_separator_line line" by auto
  from 1 dollars_first_char [of line] show "\<not> is_equation_dollars line" by auto
  show "detect_header line None = None"
  proof (cases "detect_header line None")
    case (Some ht)
    then obtain h t where "detect_header line None = Some (h, t)" by (cases ht) auto
    from header_first_char [OF this] 1 show ?thesis by auto
  qed simp
qed

lemma figure_reached:
  assumes "detect_figure line = Some settings"
  shows "\<not> is_ignore_line line" "\<not> is_separator_line line" "detect_header line None = None"
    "\<not> is_equation_dollars line" "detect_labeled_equation line = None"
    "\<not> is_list_item line" "\<not> is_quote line"
proof -
  note 1 = figure_first_char [OF assms]
  from 1 ignore_first_char [of line] show "\<not> is_ignore_line line" by auto
  from 1 separator_first_char [of line] show "\<not> is_separator_line line" by auto
  from 1 dollars_first_char [of line] show "\<not> is_equation_dollars line" by auto
  from 1 list_first_char [of line] show "\<not> is_list_item line" by auto
  from 1 quote_first_char [of line] show "\<not> is_quote line" by auto
  show "detect_header line None = None"
  proof (cases "detect_header line None")
    case (Some ht)
    then obtain h t where "detect_header line None = Some (h, t)" by (cases ht) auto
    from header_first_char [OF this] 1 show ?thesis by auto
  qed simp
  show "detect_labeled_equation line = None"
  proof (cases "detect_labeled_equation line")
    case (Some label)
    from labeled_equation_first_char [OF this] 1 show ?thesis by auto
  qed simp
qed

text \<open>What \<open>find_next_index\<close> returns.\<close>

lemma find_next_index_skipped:
  "start \<le> j \<Longrightarrow> j < find_next_index lst expr start \<Longrightarrow> \<not> expr (lst ! j)"
proof (induction lst expr start rule: find_next_index.induct)
  case (1 lst expr i)
  show ?case
  proof (cases "i < length lst \<and> \<not> expr (lst ! i)")
    case True
    show ?thesis
    proof (cases "j = i")
      case True
      with \<open>i < length lst \<and> \<not> expr (lst ! i)\<close> show ?thesis by simp
    next
      case False
      with "1.prems" True "1.IH" show ?thesis
        by (simp add: find_next_index.simps [of lst expr i])
    qed
  next
    case False
    with "1.prems" show ?thesis
      by (auto simp: find_next_index.simps [of lst expr i] split: if_splits)
  qed
qed

lemma find_next_index_found:
  "find_next_index lst expr start < length lst \<Longrightarrow> expr (lst ! find_next_index lst expr start)"
proof (induction lst expr start rule: find_next_index.induct)
  case (1 lst expr i)
  show ?case
  proof (cases "i < length lst \<and> \<not> expr (lst ! i)")
    case True
    with "1.prems" "1.IH" show ?thesis by (simp add: find_next_index.simps [of lst expr i])
  next
    case False
    with "1.prems" show ?thesis by (auto simp: find_next_index.simps [of lst expr i])
  qed
qed

lemma slice_nth:
  "b \<le> length xs \<Longrightarrow> slice xs a b = map (\<lambda>j. xs ! j) [a ..< b]"
  by (auto simp: slice_def list_eq_iff_nth_eq)

section \<open>The run of a scan\<close>

text \<open>
  The iterations of the loop from pointer \<open>i\<close> on, each with the pointer it starts at:
  the same loop as \<open>scan\<close>, keeping what every pass did instead of the blocks alone.
\<close>

function scan_run :: "string list \<Rightarrow> 'f \<Rightarrow> nat \<Rightarrow> bool \<Rightarrow> (nat \<times> 'f outcome) list" where
  "scan_run text_lines fig_path i is_ignoring =
     (if i < length text_lines then
        (case scan_step text_lines fig_path i is_ignoring of
           Raise br e \<Rightarrow> [(i, Raise br e)]
         | Advance br block i' is_ignoring' \<Rightarrow>
             (i, Advance br block i' is_ignoring')
               # scan_run text_lines fig_path i' is_ignoring')
      else [])"
  by pat_completeness auto
termination
  by (relation "measure (\<lambda>(text_lines, fig_path, i, ign). length text_lines - i)")
    (auto dest: scan_step_advances)

declare scan_run.simps [simp del]

text \<open>What \<open>scan\<close> returns, read off a run.\<close>

fun run_result :: "'p \<Rightarrow> ('f block \<times> 'p) list \<Rightarrow> bool \<Rightarrow> (nat \<times> 'f outcome) list
    \<Rightarrow> error + (('f block \<times> 'p) list \<times> bool)" where
  "run_result parent acc ign [] = Inr (acc, ign)"
| "run_result parent acc ign ((i, Raise br e) # rest) = Inl e"
| "run_result parent acc ign ((i, Advance br block i' ign') # rest) =
     run_result parent
       (case block of
          None \<Rightarrow> acc
        | Some b \<Rightarrow> if \<not> ign' then acc @ [(b, parent)] else acc)
       ign' rest"

lemma scan_eq_run:
  "scan text_lines fig_path parent i ign acc
     = run_result parent acc ign (scan_run text_lines fig_path i ign)"
proof (induction text_lines fig_path parent i ign acc rule: scan.induct)
  case (1 text_lines fig_path parent i ign acc)
  show ?case
  proof (cases "i < length text_lines")
    case False
    then show ?thesis
      by (simp add: scan.simps [of text_lines fig_path parent i]
          scan_run.simps [of text_lines fig_path i])
  next
    case True
    show ?thesis
    proof (cases "scan_step text_lines fig_path i ign")
      case (Raise br e)
      with True show ?thesis
        by (simp add: scan.simps [of text_lines fig_path parent i]
            scan_run.simps [of text_lines fig_path i])
    next
      case (Advance br block i' ign')
      with True "1.IH" [OF True Advance] show ?thesis
        by (simp add: scan.simps [of text_lines fig_path parent i]
            scan_run.simps [of text_lines fig_path i])
    qed
  qed
qed

text \<open>The branch of a pass, and the branch that builds each kind of block.\<close>

fun branch_of :: "'f outcome \<Rightarrow> branch" where
  "branch_of (Advance br block i' ign') = br"
| "branch_of (Raise br e) = br"

fun block_branch :: "'f block \<Rightarrow> branch" where
  "block_branch (Section h_level title content fig_path) = Header"
| "block_branch (Equation content None) = Unlabeled_equation"
| "block_branch (Equation content (Some label)) = Labeled_equation"
| "block_branch (List_block content) = List_item"
| "block_branch (Quote content) = Quote_line"
| "block_branch (Figure settings label caption path) = Figure_embed"
| "block_branch (Footnote footnote_mark content) = Footnote_def"
| "block_branch (Paragraph content) = Paragraph_default"

text \<open>
  The priority order as the specification words it: a list of detectors tried in
  sequence, the first that accepts the line wins, a paragraph when none does.
\<close>

definition detector_priority :: "(branch \<times> (string \<Rightarrow> bool)) list" where
  "detector_priority =
     [(Ignore_line, is_ignore_line),
      (Separator, is_separator_line),
      (Header, \<lambda>l. detect_header l None \<noteq> None),
      (Unlabeled_equation, is_equation_dollars),
      (Labeled_equation, \<lambda>l. detect_labeled_equation l \<noteq> None),
      (List_item, is_list_item),
      (Quote_line, is_quote),
      (Figure_embed, \<lambda>l. detect_figure l \<noteq> None),
      (Footnote_def, \<lambda>l. detect_footnote l \<noteq> None)]"

fun first_match :: "(branch \<times> (string \<Rightarrow> bool)) list \<Rightarrow> string \<Rightarrow> branch" where
  "first_match [] line = Paragraph_default"
| "first_match ((br, detector) # rest) line =
     (if detector line then br else first_match rest line)"

lemma scan_step_branch:
  "branch_of (scan_step text_lines fig_path i ign)
     = first_match detector_priority (text_lines ! i)"
  by (simp add: scan_step_def detector_priority_def Let_def split: option.splits)

lemma scan_step_block:
  "scan_step text_lines fig_path i ign = Advance br (Some b) i' ign'
     \<Longrightarrow> block_branch b = br \<and> ign' = ign"
  by (auto simp: scan_step_def Let_def split: option.splits if_splits)

lemma scan_step_no_block:
  "scan_step text_lines fig_path i ign = Advance br None i' ign'
     \<Longrightarrow> i' = Suc i \<and> (br = Ignore_line \<and> ign' = ign \<or> br = Separator \<and> ign' = (\<not> ign))"
  by (auto simp: scan_step_def Let_def split: option.splits if_splits)

lemma scan_step_raise:
  "scan_step text_lines fig_path i ign = Raise br e
     \<Longrightarrow> br = Labeled_equation \<or> br = Figure_embed"
  by (auto simp: scan_step_def Let_def split: option.splits if_splits)

lemma scan_end:
  "length text_lines \<le> i \<Longrightarrow> scan text_lines fig_path parent i ign acc = Inr (acc, ign)"
  by (simp add: scan.simps [of text_lines fig_path parent i])

lemma scan_raise:
  "i < length text_lines \<Longrightarrow> scan_step text_lines fig_path i ign = Raise br e
     \<Longrightarrow> scan text_lines fig_path parent i ign acc = Inl e"
  by (simp add: scan.simps [of text_lines fig_path parent i])

lemma scan_advance:
  "i < length text_lines \<Longrightarrow> scan_step text_lines fig_path i ign = Advance br block i' ign'
     \<Longrightarrow> scan text_lines fig_path parent i ign acc
         = scan text_lines fig_path parent i' ign'
             (case block of
                None \<Rightarrow> acc
              | Some b \<Rightarrow> if \<not> ign' then acc @ [(b, parent)] else acc)"
  by (simp add: scan.simps [of text_lines fig_path parent i])

lemma scan_step_header:
  assumes "detect_header (text_lines ! i) None = Some (h_level, title)"
  shows "scan_step text_lines fig_path i ign
     = Advance Header
         (Some (Section h_level title
            (slice text_lines (Suc i)
               (find_next_index text_lines (\<lambda>l. detect_header l (Some h_level) \<noteq> None) (Suc i)))
            fig_path))
         (find_next_index text_lines (\<lambda>l. detect_header l (Some h_level) \<noteq> None) (Suc i)) ign"
  using assms header_not_ignore [OF assms]
  by (simp add: scan_step_def Let_def)

section \<open>The claims about the block scanner\<close>

text \<open>
  Claim C2.  At every scan position the detectors are tried in the fixed order
  ignore-line, separator, header, unlabeled equation, labeled equation, list, quote,
  figure, footnote, and the first that accepts the line decides the pass, a paragraph
  being the default: the branch that \<open>scan_step\<close> takes is the first match of
  \<open>detector_priority\<close>, and the block it builds (if any) is of that branch's kind.
  Only the labeled-equation and the figure branch can raise.
\<close>

theorem detector_priority_order:
  "(case scan_step text_lines fig_path i ign of
      Advance br block i' ign' \<Rightarrow>
        br = first_match detector_priority (text_lines ! i)
        \<and> (case block of
             Some b \<Rightarrow> block_branch b = br
           | None \<Rightarrow> br = Ignore_line \<or> br = Separator)
    | Raise br e \<Rightarrow>
        br = first_match detector_priority (text_lines ! i)
        \<and> (br = Labeled_equation \<or> br = Figure_embed))"
proof (cases "scan_step text_lines fig_path i ign")
  case (Advance br block i' ign')
  from scan_step_branch [of text_lines fig_path i ign] Advance
  have "br = first_match detector_priority (text_lines ! i)" by simp
  moreover have "case block of Some b \<Rightarrow> block_branch b = br
      | None \<Rightarrow> br = Ignore_line \<or> br = Separator"
  proof (cases block)
    case None
    with Advance scan_step_no_block [of text_lines fig_path i ign br i' ign']
    show ?thesis by auto
  next
    case (Some b)
    with Advance scan_step_block [of text_lines fig_path i ign br b i' ign']
    show ?thesis by auto
  qed
  ultimately show ?thesis using Advance by (auto split: option.splits)
next
  case (Raise br e)
  from scan_step_branch [of text_lines fig_path i ign] Raise
  have "br = first_match detector_priority (text_lines ! i)" by simp
  with Raise scan_step_raise [OF Raise] show ?thesis by simp
qed

theorem detector_priority_order_witness:
  "scan_step [''---'', ''- item''] () 0 False = Advance Separator None 1 True
   \<and> first_match detector_priority ''---'' = Separator
   \<and> is_list_item ''---''"
proof -
  have 1: "scan_step [''---'', ''- item''] () 0 False = Advance Separator None 1 True"
    by code_simp
  have 2: "is_list_item ''---''" by code_simp
  from detector_priority_order [where text_lines = "[''---'', ''- item'']"
      and fig_path = "()" and i = 0 and ign = False] 1 2
  show ?thesis by simp
qed

text \<open>
  Claim C4.  When the scanner matches a header line at pointer \<open>i\<close>, the pass builds
  a \<open>Section\<close> block with the header's level (1 to 3) and title whose child lines are
  exactly the lines strictly between the header and the next line strictly after it that
  is a header of the same level, or the end of the input; the pointer moves to that
  boundary, not past it.  The text \<open># Title\<close>, newline, \<open>Body line\<close> gives one
  \<open>Section\<close> of level 1, title \<open>Title\<close> and child lines \<open>[Body line]\<close>.
\<close>

theorem header_section_block:
  assumes "i < length text_lines"
    and "detect_header (text_lines ! i) None = Some (h_level, title)"
  shows "let end_section_i =
           find_next_index text_lines (\<lambda>l. detect_header l (Some h_level) \<noteq> None) (Suc i);
         section = Section h_level title (map (\<lambda>j. text_lines ! j) [Suc i ..< end_section_i])
           fig_path
     in scan_step text_lines fig_path i ign = Advance Header (Some section) end_section_i ign
      \<and> scan text_lines fig_path parent i ign acc
          = scan text_lines fig_path parent end_section_i ign
              (if ign then acc else acc @ [(section, parent)])
      \<and> i < end_section_i \<and> end_section_i \<le> length text_lines
      \<and> (\<forall>j. i < j \<and> j < end_section_i
            \<longrightarrow> detect_header (text_lines ! j) (Some h_level) = None)
      \<and> (end_section_i < length text_lines
            \<longrightarrow> detect_header (text_lines ! end_section_i) (Some h_level) \<noteq> None)
      \<and> 1 \<le> h_level \<and> h_level \<le> 3
      \<and> to_blocks_str (''# Title'' @ [newline] @ ''Body line'') fig_path parent
          = Inr ([(Section 1 ''Title'' [''Body line''] fig_path, parent)], False)"
proof -
  define e where
    "e = find_next_index text_lines (\<lambda>l. detect_header l (Some h_level) \<noteq> None) (Suc i)"
  define sec where
    "sec = Section h_level title (map (\<lambda>j. text_lines ! j) [Suc i ..< e]) fig_path"
  have le: "e \<le> length text_lines" unfolding e_def by (rule find_next_index_le)
  have gt: "i < e" unfolding e_def using assms(1) by (rule find_next_index_gt)
  have sl: "slice text_lines (Suc i) e = map (\<lambda>j. text_lines ! j) [Suc i ..< e]"
    using le by (rule slice_nth)
  have step: "scan_step text_lines fig_path i ign = Advance Header (Some sec) e ign"
    using scan_step_header [OF assms(2), of fig_path ign] sl by (simp add: e_def sec_def)
  have loop: "scan text_lines fig_path parent i ign acc
      = scan text_lines fig_path parent e ign (if ign then acc else acc @ [(sec, parent)])"
    using scan_advance [OF assms(1) step, of parent acc] by simp
  have skipped: "\<forall>j. i < j \<and> j < e \<longrightarrow> detect_header (text_lines ! j) (Some h_level) = None"
  proof (intro allI impI)
    fix j
    assume j: "i < j \<and> j < e"
    then have "Suc i \<le> j" and "j < find_next_index text_lines
        (\<lambda>l. detect_header l (Some h_level) \<noteq> None) (Suc i)"
      by (simp_all add: e_def)
    then have "\<not> detect_header (text_lines ! j) (Some h_level) \<noteq> None"
      by (rule find_next_index_skipped)
    then show "detect_header (text_lines ! j) (Some h_level) = None" by blast
  qed
  have found: "e < length text_lines \<longrightarrow> detect_header (text_lines ! e) (Some h_level) \<noteq> None"
  proof
    assume "e < length text_lines"
    then have "find_next_index text_lines
        (\<lambda>l. detect_header l (Some h_level) \<noteq> None) (Suc i) < length text_lines"
      unfolding e_def .
    then have "detect_header (text_lines ! find_next_index text_lines
        (\<lambda>l. detect_header l (Some h_level) \<noteq> None) (Suc i)) (Some h_level) \<noteq> None"
      by (rule find_next_index_found)
    then show "detect_header (text_lines ! e) (Some h_level) \<noteq> None"
      unfolding e_def .
  qed
  from header_shape [OF assms(2)] have level: "1 \<le> h_level \<and> h_level \<le> 3" by auto
  have example: "to_blocks_str (''# Title'' @ [newline] @ ''Body line'') fig_path parent
          = Inr ([(Section 1 ''Title'' [''Body line''] fig_path, parent)], False)"
  proof -
    let ?ls = "[''# Title'', ''Body line'']"
    have 1: "splitlines (''# Title'' @ [newline] @ ''Body line'') = ?ls" by code_simp
    have 2: "detect_header (?ls ! 0) None = Some (1, ''Title'')" by code_simp
    have 3: "find_next_index ?ls (\<lambda>l. detect_header l (Some 1) \<noteq> None) (Suc 0) = 2"
      by code_simp
    have 4: "slice ?ls (Suc 0) 2 = [''Body line'']" by code_simp
    from scan_step_header [OF 2, of fig_path False] 3 4
    have "scan_step ?ls fig_path 0 False
        = Advance Header (Some (Section 1 ''Title'' [''Body line''] fig_path)) 2 False"
      by simp
    from scan_advance [OF _ this, of parent "[]"]
    have "scan ?ls fig_path parent 0 False []
        = scan ?ls fig_path parent 2 False [(Section 1 ''Title'' [''Body line''] fig_path, parent)]"
      by simp
    also have "\<dots> = Inr ([(Section 1 ''Title'' [''Body line''] fig_path, parent)], False)"
      by (simp add: scan_end)
    finally show ?thesis by (simp only: to_blocks_str_def to_blocks_def 1)
  qed
  from step loop gt le skipped found level example show ?thesis
    unfolding Let_def e_def [symmetric] sec_def [symmetric] by blast
qed

theorem header_section_block_witness:
  "scan_step [''## A'', ''text'', ''# B'', ''## C'', ''more''] () 0 False
     = Advance Header (Some (Section 2 ''A'' [''text'', ''# B''] ())) 3 False
   \<and> to_blocks [''## A'', ''text'', ''# B'', ''## C'', ''more''] () ()
     = Inr ([(Section 2 ''A'' [''text'', ''# B''] (), ()),
             (Section 2 ''C'' [''more''] (), ())], False)"
proof -
  have 1: "(0::nat) < length [''## A'', ''text'', ''# B'', ''## C'', ''more'']" by simp
  have 2: "detect_header ([''## A'', ''text'', ''# B'', ''## C'', ''more''] ! 0) None
      = Some (2, ''A'')" by code_simp
  have 3: "find_next_index [''## A'', ''text'', ''# B'', ''## C'', ''more'']
      (\<lambda>l. detect_header l (Some 2) \<noteq> None) (Suc 0) = 3" by code_simp
  have 4: "to_blocks [''## A'', ''text'', ''# B'', ''## C'', ''more''] () ()
     = Inr ([(Section 2 ''A'' [''text'', ''# B''] (), ()),
             (Section 2 ''C'' [''more''] (), ())], False)" by code_simp
  have 5: "map (\<lambda>j. [''## A'', ''text'', ''# B'', ''## C'', ''more''] ! j) [Suc 0 ..< 3]
     = [''text'', ''# B'']" by code_simp
  from header_section_block [OF 1 2, of "()" False "()" "[]"] 3 4 5
  show ?thesis by (simp add: Let_def)
qed

lemma scan_step_labeled_equation:
  assumes "detect_labeled_equation (text_lines ! i) = Some label"
  shows "scan_step text_lines fig_path i ign =
    (if length text_lines \<le> i + 1 then Raise Labeled_equation IndexError
     else if \<not> is_equation_dollars (text_lines ! (i + 1)) then
       Raise Labeled_equation (AssertionError equation_message)
     else Advance Labeled_equation
        (Some (Equation
           (slice text_lines (i + 2) (find_next_index text_lines is_equation_dollars (i + 2)))
           (Some label)))
        (find_next_index text_lines is_equation_dollars (i + 2) + 1) ign)"
  using assms labeled_equation_reached [OF assms]
  by (simp add: scan_step_def Let_def)

lemma scan_step_figure:
  assumes "detect_figure (text_lines ! i) = Some settings"
  shows "scan_step text_lines fig_path i ign =
    (if length text_lines \<le> i + 1 then Raise Figure_embed IndexError
     else case re_match caption_rx (text_lines ! (i + 1)) of
        None \<Rightarrow> Raise Figure_embed (AssertionError (figure_message (hd settings)))
      | Some alt_data \<Rightarrow>
          Advance Figure_embed
            (Some (Figure settings (strip (grp alt_data 1)) (strip (grp alt_data 2)) fig_path))
            (i + 2) ign)"
  using assms figure_reached [OF assms]
  by (simp add: scan_step_def Let_def)

lemma scan_step_last_line:
  assumes "text_lines \<noteq> []"
    and "detect_labeled_equation (last text_lines) \<noteq> None
         \<or> detect_figure (last text_lines) \<noteq> None"
  shows "\<exists>br. scan_step text_lines fig_path (length text_lines - 1) ign = Raise br IndexError"
proof -
  let ?i = "length text_lines - 1"
  from assms(1) have last: "last text_lines = text_lines ! ?i"
    by (simp add: last_conv_nth)
  show ?thesis
  proof (cases "detect_labeled_equation (last text_lines)")
    case (Some label)
    with last have "detect_labeled_equation (text_lines ! ?i) = Some label" by simp
    from scan_step_labeled_equation [OF this, of fig_path ign] assms(1)
    show ?thesis by simp
  next
    case None
    with assms(2) obtain settings where "detect_figure (last text_lines) = Some settings"
      by auto
    with last have "detect_figure (text_lines ! ?i) = Some settings" by simp
    from scan_step_figure [OF this, of fig_path ign] assms(1)
    show ?thesis by simp
  qed
qed

lemma scan_last_line:
  assumes "text_lines \<noteq> []"
    and "detect_labeled_equation (last text_lines) \<noteq> None
         \<or> detect_figure (last text_lines) \<noteq> None"
  shows "scan text_lines fig_path parent (length text_lines - 1) ign acc = Inl IndexError"
proof -
  from scan_step_last_line [OF assms, of fig_path ign] obtain br
    where br: "scan_step text_lines fig_path (length text_lines - 1) ign = Raise br IndexError" ..
  from assms(1) have "length text_lines - 1 < length text_lines" by simp
  from scan_raise [OF this br] show ?thesis .
qed

text \<open>
  Claim C10.  The look-ahead \<open>text_lines[i + 1]\<close> of the labeled-equation and the
  figure branch is not guarded: when the scan reaches a last line that is a
  labeled-equation marker or a figure embed line, the pass raises \<open>IndexError\<close>, not
  the assertion failure of a malformed block, and so does the whole scan.  The pointer
  does not reach every such last line (a figure line does not end a paragraph), hence
  "for some inputs".
\<close>

theorem lookahead_index_error:
  assumes "text_lines \<noteq> []"
    and "detect_labeled_equation (last text_lines) \<noteq> None
         \<or> detect_figure (last text_lines) \<noteq> None"
  shows "(\<exists>br. scan_step text_lines fig_path (length text_lines - 1) ign = Raise br IndexError)
     \<and> scan text_lines fig_path parent (length text_lines - 1) ign acc = Inl IndexError
     \<and> (length text_lines = 1 \<longrightarrow> to_blocks text_lines fig_path parent = Inl IndexError)"
proof -
  have "length text_lines = 1 \<longrightarrow> to_blocks text_lines fig_path parent = Inl IndexError"
    using scan_last_line [OF assms, of fig_path parent False "[]"]
    by (auto simp: to_blocks_def)
  with scan_step_last_line [OF assms, of fig_path ign]
    scan_last_line [OF assms, of fig_path parent ign acc]
  show ?thesis by blast
qed

theorem lookahead_index_error_witness:
  "to_blocks [''`eq_label:foo`''] () () = Inl IndexError
   \<and> to_blocks [''![[a.png]] w100''] () () = Inl IndexError
   \<and> scan [''Some text.'', '''', ''`eq_label:foo`''] () () 2 False
        [(Paragraph [''Some text.''], ())] = Inl IndexError
   \<and> to_blocks [''Some text.'', '''', ''`eq_label:foo`''] () () = Inl IndexError
   \<and> to_blocks [''Some text.'', ''![[a.png]]''] () ()
       = Inr ([(Paragraph [''Some text.'', ''![[a.png]]''], ())], False)"
proof -
  have 1: "[''`eq_label:foo`''] \<noteq> []" by simp
  have 2: "detect_labeled_equation (last [''`eq_label:foo`'']) \<noteq> None
      \<or> detect_figure (last [''`eq_label:foo`'']) \<noteq> None" by code_simp
  have 3: "to_blocks [''![[a.png]] w100''] () () = Inl IndexError" by code_simp
  have 4: "scan [''Some text.'', '''', ''`eq_label:foo`''] () () 2 False
      [(Paragraph [''Some text.''], ())] = Inl IndexError" by code_simp
  have 5: "to_blocks [''Some text.'', '''', ''`eq_label:foo`''] () () = Inl IndexError"
    by code_simp
  have 6: "to_blocks [''Some text.'', ''![[a.png]]''] () ()
       = Inr ([(Paragraph [''Some text.'', ''![[a.png]]''], ())], False)" by code_simp
  from lookahead_index_error [OF 1 2, of "()" False "()" "[]"] 3 4 5 6
  show ?thesis by simp
qed

lemma scan_step_assertion:
  assumes "scan_step text_lines fig_path i ign = Raise br (AssertionError msg)"
  shows "Suc i < length text_lines
     \<and> (detect_labeled_equation (text_lines ! i) \<noteq> None
          \<and> \<not> is_equation_dollars (text_lines ! Suc i) \<and> msg = equation_message
        \<or> (\<exists>settings. detect_figure (text_lines ! i) = Some settings
          \<and> re_match caption_rx (text_lines ! Suc i) = None
          \<and> msg = figure_message (hd settings)))"
  using assms
  by (auto simp: scan_step_def Let_def split: option.splits if_splits)

lemma scan_assertion_origin:
  "scan text_lines fig_path parent i ign acc = Inl (AssertionError msg) \<Longrightarrow>
     \<exists>j. Suc j < length text_lines
       \<and> (detect_labeled_equation (text_lines ! j) \<noteq> None
            \<and> \<not> is_equation_dollars (text_lines ! Suc j) \<and> msg = equation_message
          \<or> (\<exists>settings. detect_figure (text_lines ! j) = Some settings
            \<and> re_match caption_rx (text_lines ! Suc j) = None
            \<and> msg = figure_message (hd settings)))"
proof (induction text_lines fig_path parent i ign acc rule: scan.induct)
  case (1 text_lines fig_path parent i ign acc)
  show ?case
  proof (cases "i < length text_lines")
    case False
    with "1.prems" show ?thesis by (simp add: scan_end)
  next
    case True
    show ?thesis
    proof (cases "scan_step text_lines fig_path i ign")
      case (Raise br e)
      with True "1.prems" have "e = AssertionError msg" by (simp add: scan_raise)
      with Raise scan_step_assertion [of text_lines fig_path i ign br msg]
      show ?thesis by blast
    next
      case (Advance br block i' ign')
      from "1.prems" scan_advance [OF True Advance, of parent acc]
      have "scan text_lines fig_path parent i' ign'
          (case block of None \<Rightarrow> acc
           | Some b \<Rightarrow> if \<not> ign' then acc @ [(b, parent)] else acc)
        = Inl (AssertionError msg)" by simp
      from "1.IH" [OF True Advance this] show ?thesis .
    qed
  qed
qed

text \<open>
  Claim C3 says that the two fatal conditions are malformed-block errors that carry the
  offending line index.  The code raises a bare assertion failure: its message is the
  same wherever the offending marker stands (line 0 or line 2 below), so no line
  index is carried.
\<close>

theorem malformed_block_errors_counterexample:
  "to_blocks [''`eq_label:foo`'', ''not-dollars''] () ()
     = Inl (AssertionError ''Equation dollars must be alone in a line'')
   \<and> to_blocks [''Some text.'', '''', ''`eq_label:foo`'', ''not-dollars''] () ()
     = Inl (AssertionError ''Equation dollars must be alone in a line'')
   \<and> to_blocks [''![[a.png]]'', ''no caption''] () ()
     = Inl (AssertionError ''Caption of figure <a.png> badly formed'')
   \<and> to_blocks [''Some text.'', '''', ''![[a.png]]'', ''no caption''] () ()
     = Inl (AssertionError ''Caption of figure <a.png> badly formed'')"
  by code_simp

text \<open>
  Claim C3, amended.  The scan has exactly two assertion failures, each an
  \<open>AssertionError\<close> that ends the scan and is handed to the caller with a message
  and no line index: a labeled-equation marker line whose following line exists and is
  not an equation-dollar line fails with \<open>equation_message\<close>; a figure embed line
  whose following line exists and does not match the caption pattern fails with
  \<open>figure_message\<close> of the embedded file name; and every assertion failure of
  \<open>to_blocks\<close> is one of these two.  (What happens when no line follows is the
  subject of claim C10.)
\<close>

theorem malformed_block_assertions:
  "(Suc i < length text_lines \<and> detect_labeled_equation (text_lines ! i) \<noteq> None
      \<and> \<not> is_equation_dollars (text_lines ! Suc i)
      \<longrightarrow> scan text_lines fig_path parent i ign acc = Inl (AssertionError equation_message))
   \<and> (Suc i < length text_lines \<and> detect_figure (text_lines ! i) = Some settings
      \<and> re_match caption_rx (text_lines ! Suc i) = None
      \<longrightarrow> scan text_lines fig_path parent i ign acc
          = Inl (AssertionError (figure_message (hd settings))))
   \<and> (to_blocks text_lines fig_path parent = Inl (AssertionError msg)
      \<longrightarrow> (\<exists>j. Suc j < length text_lines
            \<and> (detect_labeled_equation (text_lines ! j) \<noteq> None
                 \<and> \<not> is_equation_dollars (text_lines ! Suc j) \<and> msg = equation_message
               \<or> (\<exists>settings. detect_figure (text_lines ! j) = Some settings
                 \<and> re_match caption_rx (text_lines ! Suc j) = None
                 \<and> msg = figure_message (hd settings)))))"
proof (intro conjI impI)
  assume a: "Suc i < length text_lines \<and> detect_labeled_equation (text_lines ! i) \<noteq> None
      \<and> \<not> is_equation_dollars (text_lines ! Suc i)"
  then obtain label where "detect_labeled_equation (text_lines ! i) = Some label" by auto
  from scan_step_labeled_equation [OF this, of fig_path ign] a
  have step: "scan_step text_lines fig_path i ign
      = Raise Labeled_equation (AssertionError equation_message)" by simp
  from a have "i < length text_lines" by simp
  from scan_raise [OF this step]
  show "scan text_lines fig_path parent i ign acc = Inl (AssertionError equation_message)" .
next
  assume a: "Suc i < length text_lines \<and> detect_figure (text_lines ! i) = Some settings
      \<and> re_match caption_rx (text_lines ! Suc i) = None"
  then have "detect_figure (text_lines ! i) = Some settings" by simp
  from scan_step_figure [OF this, of fig_path ign] a
  have step: "scan_step text_lines fig_path i ign
      = Raise Figure_embed (AssertionError (figure_message (hd settings)))" by simp
  from a have "i < length text_lines" by simp
  from scan_raise [OF this step]
  show "scan text_lines fig_path parent i ign acc
      = Inl (AssertionError (figure_message (hd settings)))" .
next
  assume "to_blocks text_lines fig_path parent = Inl (AssertionError msg)"
  then have "scan text_lines fig_path parent 0 False [] = Inl (AssertionError msg)"
    by (simp add: to_blocks_def)
  then show "\<exists>j. Suc j < length text_lines
            \<and> (detect_labeled_equation (text_lines ! j) \<noteq> None
                 \<and> \<not> is_equation_dollars (text_lines ! Suc j) \<and> msg = equation_message
               \<or> (\<exists>settings. detect_figure (text_lines ! j) = Some settings
                 \<and> re_match caption_rx (text_lines ! Suc j) = None
                 \<and> msg = figure_message (hd settings)))"
    by (rule scan_assertion_origin)
qed

theorem malformed_block_assertions_witness:
  "scan [''Some text.'', ''![[a.png]]'', ''`eq_label:foo`'', ''not-dollars''] () () 2 True []
     = Inl (AssertionError equation_message)
   \<and> scan [''![[a.png]] w100'', ''no caption''] () () 0 False []
     = Inl (AssertionError (figure_message ''a.png''))
   \<and> figure_message ''a.png'' = ''Caption of figure <a.png> badly formed''"
proof -
  let ?ls = "[''Some text.'', ''![[a.png]]'', ''`eq_label:foo`'', ''not-dollars'']"
  let ?fs = "[''![[a.png]] w100'', ''no caption'']"
  have 1: "Suc 2 < length ?ls \<and> detect_labeled_equation (?ls ! 2) \<noteq> None
      \<and> \<not> is_equation_dollars (?ls ! Suc 2)" by code_simp
  have 2: "Suc 0 < length ?fs \<and> detect_figure (?fs ! 0) = Some [''a.png'', '''', ''w100'']
      \<and> re_match caption_rx (?fs ! Suc 0) = None" by code_simp
  have 3: "figure_message ''a.png'' = ''Caption of figure <a.png> badly formed''"
    by code_simp
  from malformed_block_assertions [where text_lines = ?ls and i = 2 and fig_path = "()"
      and parent = "()" and ign = True and acc = "[]"] 1
  have a: "scan ?ls () () 2 True [] = Inl (AssertionError equation_message)" by blast
  from malformed_block_assertions [where text_lines = ?fs and i = 0 and fig_path = "()"
      and parent = "()" and ign = False and acc = "[]"
      and settings = "[''a.png'', '''', ''w100'']"] 2
  have b: "scan ?fs () () 0 False [] = Inl (AssertionError (figure_message ''a.png''))"
    by simp
  from a b 3 show ?thesis by simp
qed

section \<open>Coverage of the input by a run\<close>

text \<open>
  The lines a pass consumes: from its pointer up to the new pointer, which can lie one
  past the end of the input after an equation block that is not closed.  A pass that
  raises consumes nothing.
\<close>

fun consumed :: "nat \<Rightarrow> nat \<times> 'f outcome \<Rightarrow> nat list" where
  "consumed n (i, Advance br block i' ign') = [i ..< min i' n]"
| "consumed n (i, Raise br e) = []"

fun raised_at :: "(nat \<times> 'f outcome) list \<Rightarrow> nat option" where
  "raised_at [] = None"
| "raised_at ((i, Raise br e) # rest) = Some i"
| "raised_at ((i, Advance br block i' ign') # rest) = raised_at rest"

definition consumed_lines :: "string list \<Rightarrow> 'f \<Rightarrow> nat list" where
  "consumed_lines text_lines fig_path =
     concat (map (consumed (length text_lines)) (scan_run text_lines fig_path 0 False))"

text \<open>The pointers of a run: where each pass starts.\<close>

definition pointers :: "(nat \<times> 'f outcome) list \<Rightarrow> nat list" where
  "pointers run = map fst run"

lemma scan_run_end:
  "length text_lines \<le> i \<Longrightarrow> scan_run text_lines fig_path i ign = []"
  by (simp add: scan_run.simps [of text_lines fig_path i])

lemma scan_run_raise:
  "i < length text_lines \<Longrightarrow> scan_step text_lines fig_path i ign = Raise br e
     \<Longrightarrow> scan_run text_lines fig_path i ign = [(i, Raise br e)]"
  by (simp add: scan_run.simps [of text_lines fig_path i])

lemma scan_run_advance:
  "i < length text_lines \<Longrightarrow> scan_step text_lines fig_path i ign = Advance br block i' ign'
     \<Longrightarrow> scan_run text_lines fig_path i ign
         = (i, Advance br block i' ign') # scan_run text_lines fig_path i' ign'"
  by (simp add: scan_run.simps [of text_lines fig_path i])

lemma scan_run_pointers_ge:
  "p \<in> set (pointers (scan_run text_lines fig_path i ign)) \<Longrightarrow> i \<le> p \<and> p < length text_lines"
proof (induction text_lines fig_path i ign rule: scan_run.induct)
  case (1 text_lines fig_path i ign)
  show ?case
  proof (cases "i < length text_lines")
    case False
    with "1.prems" show ?thesis by (simp add: scan_run_end pointers_def)
  next
    case True
    show ?thesis
    proof (cases "scan_step text_lines fig_path i ign")
      case (Raise br e)
      with True "1.prems" show ?thesis by (simp add: scan_run_raise pointers_def)
    next
      case (Advance br block i' ign')
      from scan_step_advances [OF Advance True] have lt: "i < i'" .
      from "1.prems" scan_run_advance [OF True Advance]
      have "p = i \<or> p \<in> set (pointers (scan_run text_lines fig_path i' ign'))"
        by (auto simp: pointers_def)
      then show ?thesis
      proof
        assume "p = i"
        with True show ?thesis by simp
      next
        assume "p \<in> set (pointers (scan_run text_lines fig_path i' ign'))"
        from "1.IH" [OF True Advance this] lt show ?thesis by simp
      qed
    qed
  qed
qed

lemma scan_run_pointers_increase:
  "sorted_wrt (<) (pointers (scan_run text_lines fig_path i ign))"
proof (induction text_lines fig_path i ign rule: scan_run.induct)
  case (1 text_lines fig_path i ign)
  show ?case
  proof (cases "i < length text_lines")
    case False
    then show ?thesis by (simp add: scan_run_end pointers_def)
  next
    case True
    show ?thesis
    proof (cases "scan_step text_lines fig_path i ign")
      case (Raise br e)
      with True show ?thesis by (simp add: scan_run_raise pointers_def)
    next
      case (Advance br block i' ign')
      from scan_step_advances [OF Advance True] have lt: "i < i'" .
      have "\<forall>p \<in> set (pointers (scan_run text_lines fig_path i' ign')). i < p"
        using scan_run_pointers_ge [of _ text_lines fig_path i' ign'] lt by fastforce
      with "1.IH" [OF True Advance] scan_run_advance [OF True Advance]
      show ?thesis by (simp add: pointers_def)
    qed
  qed
qed

lemma raised_at_bounds:
  "raised_at (scan_run text_lines fig_path i ign) = Some k \<Longrightarrow> i \<le> k \<and> k < length text_lines"
proof (induction text_lines fig_path i ign rule: scan_run.induct)
  case (1 text_lines fig_path i ign)
  show ?case
  proof (cases "i < length text_lines")
    case False
    with "1.prems" show ?thesis by (simp add: scan_run_end)
  next
    case True
    show ?thesis
    proof (cases "scan_step text_lines fig_path i ign")
      case (Raise br e)
      with True "1.prems" show ?thesis by (simp add: scan_run_raise)
    next
      case (Advance br block i' ign')
      from scan_step_advances [OF Advance True] have lt: "i < i'" .
      from "1.prems" scan_run_advance [OF True Advance]
      have "raised_at (scan_run text_lines fig_path i' ign') = Some k" by simp
      from "1.IH" [OF True Advance this] lt show ?thesis by simp
    qed
  qed
qed

text \<open>Where a run stops: at the line whose pass raised, else at the end of the input.\<close>

definition scan_stop :: "nat \<Rightarrow> (nat \<times> 'f outcome) list \<Rightarrow> nat" where
  "scan_stop n run = (case raised_at run of None \<Rightarrow> n | Some k \<Rightarrow> k)"

lemma consumed_from:
  "i \<le> length text_lines \<Longrightarrow>
     concat (map (consumed (length text_lines)) (scan_run text_lines fig_path i ign))
       = [i ..< scan_stop (length text_lines) (scan_run text_lines fig_path i ign)]"
proof (induction text_lines fig_path i ign rule: scan_run.induct)
  case (1 text_lines fig_path i ign)
  let ?n = "length text_lines"
  show ?case
  proof (cases "i < ?n")
    case False
    with "1.prems" show ?thesis by (simp add: scan_run_end scan_stop_def)
  next
    case True
    show ?thesis
    proof (cases "scan_step text_lines fig_path i ign")
      case (Raise br e)
      with True show ?thesis by (simp add: scan_run_raise scan_stop_def)
    next
      case (Advance br block i' ign')
      from scan_step_advances [OF Advance True] have lt: "i < i'" .
      note run = scan_run_advance [OF True Advance]
      show ?thesis
      proof (cases "i' \<le> ?n")
        case False
        then have "scan_run text_lines fig_path i' ign' = []" by (simp add: scan_run_end)
        with run False show ?thesis by (simp add: scan_stop_def)
      next
        case le: True
        let ?rest = "scan_run text_lines fig_path i' ign'"
        from "1.IH" [OF True Advance le]
        have ih: "concat (map (consumed ?n) ?rest) = [i' ..< scan_stop ?n ?rest]" .
        have stop: "i' \<le> scan_stop ?n ?rest"
          using raised_at_bounds [of text_lines fig_path i' ign'] le
          by (auto simp: scan_stop_def split: option.splits)
        have "scan_stop ?n (scan_run text_lines fig_path i ign) = scan_stop ?n ?rest"
          using run by (simp add: scan_stop_def)
        moreover have "concat (map (consumed ?n) (scan_run text_lines fig_path i ign))
            = [i ..< i'] @ [i' ..< scan_stop ?n ?rest]"
          using run ih le by simp
        moreover have "[i ..< i'] @ [i' ..< scan_stop ?n ?rest] = [i ..< scan_stop ?n ?rest]"
          using lt stop by (metis less_or_eq_imp_le upt_add_eq_append le_Suc_ex)
        ultimately show ?thesis by simp
      qed
    qed
  qed
qed

lemma run_result_raised:
  "run_result parent acc ign run = Inr r \<Longrightarrow> raised_at run = None"
  by (induction parent acc ign run rule: run_result.induct) auto

lemma run_result_not_raised:
  "raised_at run = None \<Longrightarrow> \<exists>r. run_result parent acc ign run = Inr r"
  by (induction parent acc ign run rule: run_result.induct) auto

text \<open>
  Claim C1 says that for every input the consumed line ranges make up the full input
  range.  On an input with a malformed block the scan raises and the lines from the
  offending marker on are never consumed: below, only line 0 of the four lines is.
\<close>

theorem scan_partition_counterexample:
  "to_blocks [''Some text.'', ''`eq_label:foo`'', ''not-dollars'', ''More text.''] () ()
     = Inl (AssertionError ''Equation dollars must be alone in a line'')
   \<and> consumed_lines [''Some text.'', ''`eq_label:foo`'', ''not-dollars'', ''More text.''] ()
     = [0]
   \<and> [0 ..< length [''Some text.'', ''`eq_label:foo`'', ''not-dollars'', ''More text.'']]
     = [0, 1, 2, 3]"
  by code_simp

text \<open>
  Claim C1, amended.  For every input the passes of the scan start at strictly
  increasing pointers, all inside the input, and consume consecutive ranges of lines
  from line 0 on with no gap and no overlap (\<open>consumed_lines\<close> is the concatenation of
  the ranges, in order, so it equals an interval exactly when they tile it).  When the
  scan returns, the ranges of all passes, whether their blocks were emitted or ignored
  and including the skipped ignore and separator lines, cover the full input range; when
  it raises at a marker line \<open>k\<close>, they cover exactly the lines before \<open>k\<close>.
\<close>

theorem scan_partition:
  "sorted_wrt (<) (pointers (scan_run text_lines fig_path 0 False))
   \<and> (\<forall>p \<in> set (pointers (scan_run text_lines fig_path 0 False)). p < length text_lines)
   \<and> consumed_lines text_lines fig_path
       = [0 ..< scan_stop (length text_lines) (scan_run text_lines fig_path 0 False)]
   \<and> to_blocks text_lines fig_path parent
       = run_result parent [] False (scan_run text_lines fig_path 0 False)
   \<and> (\<forall>r. to_blocks text_lines fig_path parent = Inr r
        \<longrightarrow> consumed_lines text_lines fig_path = [0 ..< length text_lines])
   \<and> (\<forall>e. to_blocks text_lines fig_path parent = Inl e
        \<longrightarrow> (\<exists>k < length text_lines. consumed_lines text_lines fig_path = [0 ..< k]
               \<and> raised_at (scan_run text_lines fig_path 0 False) = Some k))"
proof -
  let ?run = "scan_run text_lines fig_path 0 False"
  have 1: "sorted_wrt (<) (pointers ?run)" by (rule scan_run_pointers_increase)
  have 2: "\<forall>p \<in> set (pointers ?run). p < length text_lines"
    using scan_run_pointers_ge [of _ text_lines fig_path 0 False] by blast
  have 3: "consumed_lines text_lines fig_path = [0 ..< scan_stop (length text_lines) ?run]"
    unfolding consumed_lines_def by (rule consumed_from) simp
  have 4: "to_blocks text_lines fig_path parent = run_result parent [] False ?run"
    unfolding to_blocks_def by (rule scan_eq_run)
  have 5: "\<forall>r. to_blocks text_lines fig_path parent = Inr r
        \<longrightarrow> consumed_lines text_lines fig_path = [0 ..< length text_lines]"
    using 3 4 run_result_raised [of parent "[]" False ?run]
    by (auto simp: scan_stop_def)
  have 6: "\<forall>e. to_blocks text_lines fig_path parent = Inl e
        \<longrightarrow> (\<exists>k < length text_lines. consumed_lines text_lines fig_path = [0 ..< k]
               \<and> raised_at ?run = Some k)"
  proof (intro allI impI)
    fix e
    assume "to_blocks text_lines fig_path parent = Inl e"
    with 4 run_result_not_raised [of ?run parent "[]" False]
    obtain k where k: "raised_at ?run = Some k" by (cases "raised_at ?run") auto
    from raised_at_bounds [OF k] have "k < length text_lines" by simp
    moreover from 3 k have "consumed_lines text_lines fig_path = [0 ..< k]"
      by (simp add: scan_stop_def)
    ultimately show "\<exists>k < length text_lines. consumed_lines text_lines fig_path = [0 ..< k]
               \<and> raised_at ?run = Some k" using k by blast
  qed
  from 1 2 3 4 5 6 show ?thesis by blast
qed

theorem scan_partition_witness:
  "scan_run [''# A'', ''text'', ''# B'', ''$$'', ''x = 1''] () 0 False
     = [(0, Advance Header (Some (Section 1 ''A'' [''text''] ())) 2 False),
        (2, Advance Header (Some (Section 1 ''B'' [''$$'', ''x = 1''] ())) 5 False)]
   \<and> scan_run [''---'', ''$$'', ''x = 1''] () 0 False
     = [(0, Advance Separator None 1 True),
        (1, Advance Unlabeled_equation (Some (Equation [''x = 1''] None)) 4 True)]
   \<and> consumed_lines [''---'', ''$$'', ''x = 1''] () = [0, 1, 2]
   \<and> to_blocks [''---'', ''$$'', ''x = 1''] () () = Inr ([], True)"
proof -
  have 1: "scan_run [''# A'', ''text'', ''# B'', ''$$'', ''x = 1''] () 0 False
     = [(0, Advance Header (Some (Section 1 ''A'' [''text''] ())) 2 False),
        (2, Advance Header (Some (Section 1 ''B'' [''$$'', ''x = 1''] ())) 5 False)]"
    by code_simp
  have 2: "scan_run [''---'', ''$$'', ''x = 1''] () 0 False
     = [(0, Advance Separator None 1 True),
        (1, Advance Unlabeled_equation (Some (Equation [''x = 1''] None)) 4 True)]"
    by code_simp
  have 3: "to_blocks [''---'', ''$$'', ''x = 1''] () () = Inr ([], True)" by code_simp
  from scan_partition [of "[''---'', ''$$'', ''x = 1'']" "()" "()"] 3
  have "consumed_lines [''---'', ''$$'', ''x = 1''] ()
      = [0 ..< length [''---'', ''$$'', ''x = 1'']]" by blast
  then have 4: "consumed_lines [''---'', ''$$'', ''x = 1''] () = [0, 1, 2]"
    by (simp add: upt_rec)
  from 1 2 3 4 show ?thesis by simp
qed

section \<open>The ignore region\<close>

text \<open>A pass with its flag left out, to compare passes that differ in the flag only.\<close>

fun without_flag :: "nat \<times> 'f outcome \<Rightarrow> nat \<times> 'f outcome" where
  "without_flag (i, Advance br block i' ign') = (i, Advance br block i' False)"
| "without_flag (i, Raise br e) = (i, Raise br e)"

lemma scan_step_flag:
  "scan_step text_lines fig_path i ign = Advance br block i' ign'
     \<Longrightarrow> scan_step text_lines fig_path i (\<not> ign) = Advance br block i' (\<not> ign')"
  by (auto simp: scan_step_def Let_def split: option.splits if_splits)

lemma scan_step_flag_raise:
  "scan_step text_lines fig_path i ign = Raise br e
     \<Longrightarrow> scan_step text_lines fig_path i (\<not> ign) = Raise br e"
  by (auto simp: scan_step_def Let_def split: option.splits if_splits)

lemma scan_run_flag:
  "map without_flag (scan_run text_lines fig_path i ign)
     = map without_flag (scan_run text_lines fig_path i (\<not> ign))"
proof (induction text_lines fig_path i ign rule: scan_run.induct)
  case (1 text_lines fig_path i ign)
  show ?case
  proof (cases "i < length text_lines")
    case False
    then show ?thesis by (simp add: scan_run_end)
  next
    case True
    show ?thesis
    proof (cases "scan_step text_lines fig_path i ign")
      case (Raise br e)
      from scan_run_raise [OF True Raise] scan_run_raise [OF True scan_step_flag_raise [OF Raise]]
      show ?thesis by simp
    next
      case (Advance br block i' ign')
      from scan_run_advance [OF True Advance]
        scan_run_advance [OF True scan_step_flag [OF Advance]]
        "1.IH" [OF True Advance]
      show ?thesis by simp
    qed
  qed
qed

lemma scan_step_separator:
  assumes "is_separator_line (text_lines ! i)"
  shows "scan_step text_lines fig_path i ign = Advance Separator None (Suc i) (\<not> ign)"
  using assms separator_not_ignore [OF assms] by (simp add: scan_step_def)

lemma scan_keeps_emitted:
  "scan text_lines fig_path parent i ign acc = Inr (blocks, warn) \<Longrightarrow> prefix acc blocks"
proof (induction text_lines fig_path parent i ign acc rule: scan.induct)
  case (1 text_lines fig_path parent i ign acc)
  show ?case
  proof (cases "i < length text_lines")
    case False
    with "1.prems" show ?thesis by (simp add: scan_end)
  next
    case True
    show ?thesis
    proof (cases "scan_step text_lines fig_path i ign")
      case (Raise br e)
      with True "1.prems" show ?thesis by (simp add: scan_raise)
    next
      case (Advance br block i' ign')
      let ?acc' = "case block of None \<Rightarrow> acc
           | Some b \<Rightarrow> if \<not> ign' then acc @ [(b, parent)] else acc"
      from "1.prems" scan_advance [OF True Advance, of parent acc]
      have "scan text_lines fig_path parent i' ign' ?acc' = Inr (blocks, warn)" by simp
      from "1.IH" [OF True Advance this] have "prefix ?acc' blocks" .
      moreover have "prefix acc ?acc'" by (cases block) auto
      ultimately show ?thesis by (rule prefix_order.trans [rotated])
    qed
  qed
qed

text \<open>
  What the loop does with the ignore flag at the passes of a scan.  A separator line at
  which a pass starts toggles the flag, moves the pointer by one and emits nothing.
  Detection and pointer advancement do not depend on the flag: with the flag inverted a
  pass takes the same branch, builds the same block, moves to the same pointer and raises
  the same error, and so does the whole run.  A block built while the flag is set is not
  appended; one built while it is clear is.  At the end of the input the scan returns the
  blocks as they are together with the flag, on which the warning is printed; blocks once
  emitted are never removed.
\<close>

lemma ignore_region_passes:
  "(i < length text_lines \<and> is_separator_line (text_lines ! i)
      \<longrightarrow> scan text_lines fig_path parent i ign acc
          = scan text_lines fig_path parent (Suc i) (\<not> ign) acc)
   \<and> (scan_step text_lines fig_path i ign = Advance br block i' ign'
      \<longrightarrow> scan_step text_lines fig_path i (\<not> ign) = Advance br block i' (\<not> ign'))
   \<and> (scan_step text_lines fig_path i ign = Raise br e
      \<longrightarrow> scan_step text_lines fig_path i (\<not> ign) = Raise br e)
   \<and> map without_flag (scan_run text_lines fig_path i True)
       = map without_flag (scan_run text_lines fig_path i False)
   \<and> (i < length text_lines \<and> scan_step text_lines fig_path i True = Advance br (Some b) i' ign'
      \<longrightarrow> scan text_lines fig_path parent i True acc
          = scan text_lines fig_path parent i' True acc)
   \<and> (i < length text_lines \<and> scan_step text_lines fig_path i False = Advance br (Some b) i' ign'
      \<longrightarrow> scan text_lines fig_path parent i False acc
          = scan text_lines fig_path parent i' False (acc @ [(b, parent)]))
   \<and> (length text_lines \<le> i
      \<longrightarrow> scan text_lines fig_path parent i ign acc = Inr (acc, ign))
   \<and> (scan text_lines fig_path parent i ign acc = Inr (blocks, warn) \<longrightarrow> prefix acc blocks)"
proof -
  have 1: "i < length text_lines \<and> is_separator_line (text_lines ! i)
      \<longrightarrow> scan text_lines fig_path parent i ign acc
          = scan text_lines fig_path parent (Suc i) (\<not> ign) acc"
  proof
    assume a: "i < length text_lines \<and> is_separator_line (text_lines ! i)"
    then have "scan_step text_lines fig_path i ign = Advance Separator None (Suc i) (\<not> ign)"
      by (simp add: scan_step_separator)
    from scan_advance [OF _ this, of parent acc] a
    show "scan text_lines fig_path parent i ign acc
          = scan text_lines fig_path parent (Suc i) (\<not> ign) acc" by simp
  qed
  have 2: "scan_step text_lines fig_path i ign = Advance br block i' ign'
      \<longrightarrow> scan_step text_lines fig_path i (\<not> ign) = Advance br block i' (\<not> ign')"
    by (rule impI) (rule scan_step_flag)
  have 3: "scan_step text_lines fig_path i ign = Raise br e
      \<longrightarrow> scan_step text_lines fig_path i (\<not> ign) = Raise br e"
    by (rule impI) (rule scan_step_flag_raise)
  have 4: "map without_flag (scan_run text_lines fig_path i True)
       = map without_flag (scan_run text_lines fig_path i False)"
    using scan_run_flag [of text_lines fig_path i True] by simp
  have 5: "i < length text_lines
        \<and> scan_step text_lines fig_path i True = Advance br (Some b) i' ign'
      \<longrightarrow> scan text_lines fig_path parent i True acc
          = scan text_lines fig_path parent i' True acc"
  proof
    assume a: "i < length text_lines
        \<and> scan_step text_lines fig_path i True = Advance br (Some b) i' ign'"
    then have "ign' = True" using scan_step_block [of text_lines fig_path i True br b i' ign']
      by simp
    with a scan_advance [of i text_lines fig_path True br "Some b" i' ign' parent acc]
    show "scan text_lines fig_path parent i True acc
          = scan text_lines fig_path parent i' True acc" by simp
  qed
  have 6: "i < length text_lines
        \<and> scan_step text_lines fig_path i False = Advance br (Some b) i' ign'
      \<longrightarrow> scan text_lines fig_path parent i False acc
          = scan text_lines fig_path parent i' False (acc @ [(b, parent)])"
  proof
    assume a: "i < length text_lines
        \<and> scan_step text_lines fig_path i False = Advance br (Some b) i' ign'"
    then have "ign' = False" using scan_step_block [of text_lines fig_path i False br b i' ign']
      by simp
    with a scan_advance [of i text_lines fig_path False br "Some b" i' ign' parent acc]
    show "scan text_lines fig_path parent i False acc
          = scan text_lines fig_path parent i' False (acc @ [(b, parent)])" by simp
  qed
  have 7: "length text_lines \<le> i
      \<longrightarrow> scan text_lines fig_path parent i ign acc = Inr (acc, ign)"
    by (simp add: scan_end)
  have 8: "scan text_lines fig_path parent i ign acc = Inr (blocks, warn) \<longrightarrow> prefix acc blocks"
    by (rule impI) (rule scan_keeps_emitted)
  from 1 2 3 4 5 6 7 8 show ?thesis by (intro conjI)
qed

lemma ignore_region_passes_example:
  "scan [''Shown.'', ''---'', ''# Hidden'', ''body'', ''---'', ''After.''] () () 1 False
       [(Paragraph [''Shown.''], ())]
     = scan [''Shown.'', ''---'', ''# Hidden'', ''body'', ''---'', ''After.''] () () 2 True
       [(Paragraph [''Shown.''], ())]
   \<and> to_blocks [''Shown.'', ''---'', ''# Hidden'', ''body'', ''---'', ''After.''] () ()
     = Inr ([(Paragraph [''Shown.''], ())], True)
   \<and> to_blocks [''Shown.'', ''---'', ''Hidden.'', ''---'', ''After.''] () ()
     = Inr ([(Paragraph [''Shown.''], ()), (Paragraph [''After.''], ())], False)"
proof -
  let ?ls = "[''Shown.'', ''---'', ''# Hidden'', ''body'', ''---'', ''After.'']"
  have 1: "1 < length ?ls \<and> is_separator_line (?ls ! 1)" by code_simp
  have 2: "to_blocks ?ls () () = Inr ([(Paragraph [''Shown.''], ())], True)" by code_simp
  have 3: "to_blocks [''Shown.'', ''---'', ''Hidden.'', ''---'', ''After.''] () ()
     = Inr ([(Paragraph [''Shown.''], ()), (Paragraph [''After.''], ())], False)" by code_simp
  from ignore_region_passes [where text_lines = ?ls and i = 1 and fig_path = "()" and parent = "()"
      and ign = False and acc = "[(Paragraph [''Shown.''], ())]"] 1
  have "scan ?ls () () 1 False [(Paragraph [''Shown.''], ())]
     = scan ?ls () () (Suc 1) (\<not> False) [(Paragraph [''Shown.''], ())]" by blast
  with 2 3 show ?thesis by (simp add: numeral_2_eq_2)
qed

text \<open>
  Claim C5 at its failing input.  The claim says that each separator line toggles the
  ignore flag, so that the content between two separators is skipped and what follows
  is emitted again.  Below, the second \<open>---\<close> (line 2) follows a list item: the list
  look-ahead stops only at a line that is not a list item, and \<open>is_list_item\<close> accepts
  \<open>---\<close>, so the separator is taken into the list block, the flag is never toggled
  back, the paragraph after it is suppressed and the scan ends with the flag set.  The
  main chain tests the separator before the list item, and with a paragraph or a quote
  as the hidden content the second separator does end the region.
\<close>

theorem separator_after_list_item:
  "is_separator_line ([''---'', ''- item'', ''---'', ''After.''] ! 2)
   \<and> scan_run [''---'', ''- item'', ''---'', ''After.''] () 0 False
      = [(0, Advance Separator None 1 True),
         (1, Advance List_item (Some (List_block [''- item'', ''---''])) 3 True),
         (3, Advance Paragraph_default (Some (Paragraph [''After.''])) 4 True)]
   \<and> to_blocks [''---'', ''- item'', ''---'', ''After.''] () () = Inr ([], True)
   \<and> to_blocks [''---'', ''Hidden.'', ''---'', ''After.''] () ()
      = Inr ([(Paragraph [''After.''], ())], False)
   \<and> to_blocks [''---'', ''> quoted'', ''---'', ''After.''] () ()
      = Inr ([(Paragraph [''After.''], ())], False)"
  by code_simp

section \<open>The inline transformer\<close>

definition backslash :: char where
  "backslash = CHR 0x5C"

definition LATEX_SPECIAL_CHARS :: string where
  "LATEX_SPECIAL_CHARS = ''$%_}&#{''"

text \<open>\<open>\$.*?\$\<close>, \<open>\[\[.*?]]\<close> and \<open>`.*?`\<close>: the spans put aside before escaping.\<close>

definition equation_rx :: rx where
  "equation_rx = seq [Lit ''$'', Rep any_char 0 None False, Lit ''$'']"

definition link_rx :: rx where
  "link_rx = seq [Lit ''[['', Rep any_char 0 None False, Lit '']]'']"

definition code_rx :: rx where
  "code_rx = seq [Lit ''`'', Rep any_char 0 None False, Lit ''`'']"

definition EQ_PLACEHOLDER :: string where
  "EQ_PLACEHOLDER = ''<EQ-PLACEHOLDER>''"

definition LINK_PLACEHOLDER :: string where
  "LINK_PLACEHOLDER = ''<LINK-PLACEHOLDER>''"

definition CODE_PLACEHOLDER :: string where
  "CODE_PLACEHOLDER = ''<CODE-PLACEHOLDER>''"

text \<open>The three substitutions, one after the other.\<close>

definition protect :: "string \<Rightarrow> string" where
  "protect line =
     re_sub code_rx (\<lambda>g. CODE_PLACEHOLDER)
       (re_sub link_rx (\<lambda>g. LINK_PLACEHOLDER)
          (re_sub equation_rx (\<lambda>g. EQ_PLACEHOLDER) line))"

text \<open>\<open>for special_char in LATEX_SPECIAL_CHARS: line = line.replace(c, "\\" + c)\<close>\<close>

definition escape_special :: "string \<Rightarrow> string" where
  "escape_special line =
     foldl (\<lambda>l special_char. replace_all [special_char] [backslash, special_char] l)
       line LATEX_SPECIAL_CHARS"

text \<open>\<open>(?<!\[)(\[.*])(?!])\<close>, replaced by \<open>{\1}\<close>.\<close>

definition bracket_rx :: rx where
  "bracket_rx =
     seq [NotBehind (is_char CHR ''[''),
          Grp 1 (seq [Lit ''['', Rep any_char 0 None True, Lit '']'']),
          NotAhead (is_char CHR '']'')]"

definition bracket_guard :: "string \<Rightarrow> string" where
  "bracket_guard line = re_sub bracket_rx (\<lambda>g. ''{'' @ grp g 1 @ ''}'') line"

text \<open>\<open>for item in items: line = line.replace(placeholder, item, 1)\<close>\<close>

definition restore :: "string \<Rightarrow> string list \<Rightarrow> string \<Rightarrow> string" where
  "restore placeholder items line =
     foldl (\<lambda>l item. replace_first placeholder item l) line items"

text \<open>
  The first part of the loop body: the three lists are found in the line as it comes, the
  spans are replaced, the rest is escaped and guarded, and the spans are put back: links,
  then equations, then codes.
\<close>

definition special_characters :: "string \<Rightarrow> string" where
  "special_characters line =
     (let equations = findall equation_rx line;
          links = findall link_rx line;
          codes = findall code_rx line;
          line1 = protect line;
          line2 = escape_special line1;
          line3 = bracket_guard line2;
          line4 = restore LINK_PLACEHOLDER links line3;
          line5 = restore EQ_PLACEHOLDER equations line4
      in restore CODE_PLACEHOLDER codes line5)"

text \<open>
  The class \<open>[18|19|20]\<close>: one of the characters listed between the brackets.  The
  class \<open>[,|\s]\<close>: a comma, a bar or white space.
\<close>

definition year_class :: "char \<Rightarrow> bool" where
  "year_class = one_of ''18|19|20''"

definition joint_class :: "char \<Rightarrow> bool" where
  "joint_class c = (c = CHR '','' \<or> c = CHR ''|'' \<or> is_space c)"

text \<open>\<open>`(\w+[18|19|20]\d{2}\w*)`\<close>, replaced by \<open>[[\1]]\<close>.\<close>

definition code_key_rx :: rx where
  "code_key_rx =
     seq [Lit ''`'',
          Grp 1 (seq [Rep is_word 1 None True, One year_class, Rep is_digit 2 (Some 2) True,
                      Rep is_word 0 None True]),
          Lit ''`'']"

definition code_keys_to_note_keys :: "string \<Rightarrow> string" where
  "code_keys_to_note_keys line = re_sub code_key_rx (\<lambda>g. ''[['' @ grp g 1 @ '']]'') line"

text \<open>
  \<open>(\w+[18|19|20]\d{2}\w*?)\]\][,|\s]{0,2}\[\[(\w+[18|19|20]\d{2}\w*?)\<close>, replaced by
  \<open>\1,\2\<close>.
\<close>

definition join_rx :: rx where
  "join_rx =
     seq [Grp 1 (seq [Rep is_word 1 None True, One year_class, Rep is_digit 2 (Some 2) True,
                      Rep is_word 0 None False]),
          Lit '']]'', Rep joint_class 0 (Some 2) True, Lit ''[['',
          Grp 2 (seq [Rep is_word 1 None True, One year_class, Rep is_digit 2 (Some 2) True,
                      Rep is_word 0 None False])]"

definition join_once :: "string \<Rightarrow> string" where
  "join_once line = re_sub join_rx (\<lambda>g. grp g 1 @ '','' @ grp g 2) line"

text \<open>A match consumes a part of the text in front of it and leaves the rest.\<close>

lemma sem_consumes:
  "sem r st st' \<Longrightarrow> \<exists>w. fst (snd st) = w @ fst (snd st') \<and> fst st' = rev w @ fst st"
proof (induction r arbitrary: st st')
  case (Cat a b)
  from Cat.prems obtain st1 where 1: "sem a st st1" "sem b st1 st'" by auto
  from Cat.IH(1) [OF 1(1)] obtain w1
    where w1: "fst (snd st) = w1 @ fst (snd st1)" "fst st1 = rev w1 @ fst st" by blast
  from Cat.IH(2) [OF 1(2)] obtain w2
    where w2: "fst (snd st1) = w2 @ fst (snd st')" "fst st' = rev w2 @ fst st1" by blast
  from w1 w2 have "fst (snd st) = (w1 @ w2) @ fst (snd st') \<and> fst st' = rev (w1 @ w2) @ fst st"
    by simp
  then show ?case by (rule exI)
next
  case (Alt a b)
  from Alt.prems have "sem a st st' \<or> sem b st st'" by simp
  then show ?case
  proof
    assume "sem a st st'"
    then show ?thesis by (rule Alt.IH(1))
  next
    assume "sem b st st'"
    then show ?thesis by (rule Alt.IH(2))
  qed
next
  case (Grp n a)
  obtain pre s g where st: "st = (pre, s, g)" by (cases st)
  with Grp.prems obtain pre1 s1 g1 where 1: "sem a st (pre1, s1, g1)"
    "st' = (pre1, s1, g1(n \<mapsto> take (length s - length s1) s))" by auto
  from Grp.IH [OF 1(1)] 1(2) show ?case by simp
next
  case (Lit w)
  obtain pre s g where st: "st = (pre, s, g)" by (cases st)
  with Lit have "prefix w s" "st' = (rev w @ pre, drop (length w) s, g)" by auto
  then have "fst (snd st) = w @ fst (snd st') \<and> fst st' = rev w @ fst st"
    using st by (auto simp: prefix_def)
  then show ?case by (rule exI)
next
  case (One p)
  obtain pre s g where st: "st = (pre, s, g)" by (cases st)
  with One obtain c cs where "s = c # cs" "st' = (c # pre, cs, g)" by auto
  then have "fst (snd st) = [c] @ fst (snd st') \<and> fst st' = rev [c] @ fst st"
    using st by simp
  then show ?case by (rule exI)
next
  case (Rep p lo hi greedy)
  obtain pre s g where st: "st = (pre, s, g)" by (cases st)
  with Rep obtain u v where "s = u @ v" "st' = (rev u @ pre, v, g)" by auto
  then have "fst (snd st) = u @ fst (snd st') \<and> fst st' = rev u @ fst st"
    using st by simp
  then show ?case by (rule exI)
next
  case (NotBehind p)
  then have "st' = st" by (cases st) auto
  then show ?case by simp
next
  case (NotAhead p)
  then have "st' = st" by (cases st) auto
  then show ?case by simp
next
  case Bol
  then have "st' = st" by (cases st) auto
  then show ?case by simp
next
  case Eol
  then have "st' = st" by (cases st) auto
  then show ?case by simp
qed

lemma sem_Grp:
  assumes "sem (Grp n a) (pre, s, g) st'"
  shows "\<exists>w s1 pre1 g1. s = w @ s1 \<and> st' = (pre1, s1, g1(n \<mapsto> w))
     \<and> sem a (pre, s, g) (pre1, s1, g1)"
proof -
  from assms obtain pre1 s1 g1 where 1: "sem a (pre, s, g) (pre1, s1, g1)"
    "st' = (pre1, s1, g1(n \<mapsto> take (length s - length s1) s))" by auto
  from sem_consumes [OF 1(1)] obtain w where "s = w @ s1" by auto
  with 1 have "s = w @ s1 \<and> st' = (pre1, s1, g1(n \<mapsto> w)) \<and> sem a (pre, s, g) (pre1, s1, g1)"
    by simp
  then show ?thesis by (intro exI)
qed

lemma match_here_length:
  "match_here r pre s = Some (n, g) \<Longrightarrow> n \<le> length s"
  using match_here_sound [of r pre s n g] by auto

text \<open>
  A substitution whose replacements are shorter than what they replace never lengthens
  the text, and shortens it whenever it changes it.
\<close>

lemma sub_from_shrinks:
  assumes "\<And>pre s n g. match_here r pre s = Some (n, g) \<Longrightarrow> length (repl g) + d \<le> n"
    and "0 < d"
  shows "length (sub_from r repl pre s) \<le> length s
     \<and> (sub_from r repl pre s \<noteq> s \<longrightarrow> length (sub_from r repl pre s) + d \<le> length s)"
  using assms
proof (induction r repl pre s rule: sub_from.induct)
  case (1 r repl pre s)
  note shorter = "1.prems"(1) and d = "1.prems"(2)
  show ?case
  proof (cases "match_here r pre s")
    case None
    show ?thesis
    proof (cases s)
      case Nil
      with None show ?thesis by (simp add: sub_from.simps [of r repl pre "[]"])
    next
      case (Cons c cs)
      with None "1.IH"(1) [OF None Cons shorter d]
      show ?thesis by (simp add: sub_from.simps [of r repl pre "c # cs"])
    qed
  next
    case (Some ng)
    obtain n g where ng: "ng = (n, g)" by (cases ng)
    from Some ng have mh: "match_here r pre s = Some (n, g)" by simp
    from shorter [OF mh] d have n: "0 < n" "length (repl g) + d \<le> n" by simp_all
    from match_here_length [OF mh] have le: "n \<le> length s" .
    from n le have cond: "\<not> (n = 0 \<or> length s < n)" by simp
    from "1.IH"(3) [OF Some ng [symmetric] cond shorter d]
    have "length (sub_from r repl (rev (take n s) @ pre) (drop n s)) \<le> length (drop n s)"
      by simp
    with n le have "length (repl g)
        + length (sub_from r repl (rev (take n s) @ pre) (drop n s)) + d \<le> length s"
      by simp
    moreover have "sub_from r repl pre s
        = repl g @ sub_from r repl (rev (take n s) @ pre) (drop n s)"
      using mh cond by (simp add: sub_from.simps [of r repl pre s])
    ultimately show ?thesis by simp
  qed
qed

lemma join_match_shorter:
  assumes "match_here join_rx pre s = Some (n, g)"
  shows "length (grp g 1 @ '','' @ grp g 2) + 3 \<le> n"
proof -
  from match_here_sound [OF assms] obtain pre' s'
    where sem: "sem join_rx (pre, s, Map.empty) (pre', s', g)" and n: "n = length s - length s'"
    by blast
  let ?key = "\<lambda>lazy. Cat (Rep is_word 1 None True) (Cat (One year_class)
      (Cat (Rep is_digit 2 (Some 2) True) (Rep is_word 0 None lazy)))"
  from sem obtain st1 st2 st3 st4
    where 1: "sem (Grp 1 (?key False)) (pre, s, Map.empty) st1"
      and 2: "sem (Lit '']]'') st1 st2"
      and 3: "sem (Rep joint_class 0 (Some 2) True) st2 st3"
      and 4: "sem (Lit ''[['') st3 st4"
      and 5: "sem (Grp 2 (?key False)) st4 (pre', s', g)"
    unfolding join_rx_def seq.simps sem.simps(4) by blast
  from sem_Grp [OF 1] obtain w1 s1 pre1 g1
    where a: "s = w1 @ s1" "st1 = (pre1, s1, g1(1 \<mapsto> w1))" by blast
  from 2 a obtain s2 pre2 where b: "s1 = '']]'' @ s2" "st2 = (pre2, s2, g1(1 \<mapsto> w1))"
    by (auto simp: prefix_def)
  from 3 b obtain u s3 pre3 where c: "s2 = u @ s3" "st3 = (pre3, s3, g1(1 \<mapsto> w1))"
    by auto
  from 4 c obtain s4 pre4 where d: "s3 = ''[['' @ s4" "st4 = (pre4, s4, g1(1 \<mapsto> w1))"
    by (auto simp: prefix_def)
  from 5 d have "sem (Grp 2 (?key False)) (pre4, s4, g1(1 \<mapsto> w1)) (pre', s', g)" by simp
  from sem_Grp [OF this] obtain w2 g2 where e: "s4 = w2 @ s'" "g = g2(2 \<mapsto> w2)"
    and inner: "sem (?key False) (pre4, s4, g1(1 \<mapsto> w1)) (pre', s', g2)" by blast
  from inner have "g2 = g1(1 \<mapsto> w1)" by auto
  with e have g: "grp g 1 = w1" "grp g 2 = w2" by (simp_all add: grp_def)
  from a b c d e n have "n = length w1 + 2 + length u + 2 + length w2" by simp
  with g show ?thesis by simp
qed

lemma join_once_shrinks:
  "length (join_once line) \<le> length line
     \<and> (join_once line \<noteq> line \<longrightarrow> length (join_once line) + 3 \<le> length line)"
proof -
  have "\<And>pre s n g. match_here join_rx pre s = Some (n, g)
      \<Longrightarrow> length ((\<lambda>g. grp g 1 @ '','' @ grp g 2) g) + 3 \<le> n"
    by (rule join_match_shorter)
  from sub_from_shrinks [of join_rx "\<lambda>g. grp g 1 @ '','' @ grp g 2" 3, OF this]
  show ?thesis unfolding join_once_def re_sub_def by simp
qed

text \<open>
  \<open>joining = True; while joining: \<dots>; joining = len(line) != length_before\<close>
\<close>

function join_citations :: "string \<Rightarrow> string" where
  "join_citations line =
     (let length_before = length line;
          line' = join_once line
      in if length line' \<noteq> length_before then join_citations line' else line')"
  by pat_completeness auto
termination
proof (relation "measure length")
  show "wf (measure length)" by simp
next
  fix line length_before line'
  assume "length_before = length line" "line' = join_once line"
    "length line' \<noteq> length_before"
  with join_once_shrinks [of line] show "(line', line) \<in> measure length" by simp
qed

declare join_citations.simps [simp del]

text \<open>\<open>\[\[(\w+[18|19|20]\d{2}\S*?)\]\]\<close>, replaced by \<open>\\cite{\1}\<close>.\<close>

definition note_key_rx :: rx where
  "note_key_rx =
     seq [Lit ''[['',
          Grp 1 (seq [Rep is_word 1 None True, One year_class, Rep is_digit 2 (Some 2) True,
                      Rep non_space 0 None False]),
          Lit '']]'']"

definition note_keys_to_cite :: "string \<Rightarrow> string" where
  "note_keys_to_cite line =
     re_sub note_key_rx (\<lambda>g. [backslash] @ ''cite{'' @ grp g 1 @ ''}'') line"

text \<open>The second part of the loop body: citations.\<close>

definition citations :: "string \<Rightarrow> string" where
  "citations line = note_keys_to_cite (join_citations (code_keys_to_note_keys line))"

text \<open>\<open>`(fig:\S*?)`\<close> and \<open>`(eq:\S*?)`\<close>, each replaced by \<open>\\ref{\1}\<close>.\<close>

definition fig_ref_rx :: rx where
  "fig_ref_rx =
     seq [Lit ''`'', Grp 1 (seq [Lit ''fig:'', Rep non_space 0 None False]), Lit ''`'']"

definition eq_ref_rx :: rx where
  "eq_ref_rx =
     seq [Lit ''`'', Grp 1 (seq [Lit ''eq:'', Rep non_space 0 None False]), Lit ''`'']"

definition references :: "string \<Rightarrow> string" where
  "references line =
     re_sub eq_ref_rx (\<lambda>g. [backslash] @ ''ref{'' @ grp g 1 @ ''}'')
       (re_sub fig_ref_rx (\<lambda>g. [backslash] @ ''ref{'' @ grp g 1 @ ''}'') line)"

text \<open>\<open>`(.*?)`\<close>, replaced by \<open>\\texttt{\1}\<close>.\<close>

definition monospace_rx :: rx where
  "monospace_rx = seq [Lit ''`'', Grp 1 (Rep any_char 0 None False), Lit ''`'']"

definition monospace :: "string \<Rightarrow> string" where
  "monospace line = re_sub monospace_rx (\<lambda>g. [backslash] @ ''texttt{'' @ grp g 1 @ ''}'') line"

text \<open>
  The emphasis patterns: \<open>(?<!\*)\*"([^\*].*?)"\*(?!\*)\<close>,
  \<open>(?<!\*)\*([^\*].*?)\*(?!\*)\<close>, \<open>\*\*([^\*].*?)\*\*\<close> and \<open>==([^=].*?)==\<close>.
\<close>

definition star :: "char \<Rightarrow> bool" where
  "star = is_char CHR ''*''"

definition quote_mark :: char where
  "quote_mark = CHR 0x22"

definition quoted_italic_rx :: rx where
  "quoted_italic_rx =
     seq [NotBehind star, Lit (''*'' @ [quote_mark]),
          Grp 1 (seq [One (not_char CHR ''*''), Rep any_char 0 None False]),
          Lit ([quote_mark] @ ''*''), NotAhead star]"

definition italic_rx :: rx where
  "italic_rx =
     seq [NotBehind star, Lit ''*'',
          Grp 1 (seq [One (not_char CHR ''*''), Rep any_char 0 None False]),
          Lit ''*'', NotAhead star]"

definition bold_rx :: rx where
  "bold_rx =
     seq [Lit ''**'', Grp 1 (seq [One (not_char CHR ''*''), Rep any_char 0 None False]),
          Lit ''**'']"

definition highlight_rx :: rx where
  "highlight_rx =
     seq [Lit ''=='', Grp 1 (seq [One (not_char CHR ''=''), Rep any_char 0 None False]),
          Lit ''=='']"

definition quoted_italic :: "string \<Rightarrow> string" where
  "quoted_italic line =
     re_sub quoted_italic_rx (\<lambda>g. [backslash] @ ''textquote{'' @ grp g 1 @ ''}'') line"

definition italic :: "string \<Rightarrow> string" where
  "italic line = re_sub italic_rx (\<lambda>g. [backslash] @ ''textit{'' @ grp g 1 @ ''}'') line"

definition bold :: "string \<Rightarrow> string" where
  "bold line = re_sub bold_rx (\<lambda>g. [backslash] @ ''textbf{'' @ grp g 1 @ ''}'') line"

definition highlight :: "string \<Rightarrow> string" where
  "highlight line = re_sub highlight_rx (\<lambda>g. [backslash] @ ''hl{'' @ grp g 1 @ ''}'') line"

text \<open>The last part of the loop body: monospace, then the four kinds of emphasis.\<close>

definition text_formatting :: "string \<Rightarrow> string" where
  "text_formatting line = highlight (bold (italic (quoted_italic (monospace line))))"

text \<open>The loop body, and the loop over the lines.\<close>

definition format_line :: "string \<Rightarrow> string" where
  "format_line line = text_formatting (references (citations (special_characters line)))"

definition format_text :: "string list \<Rightarrow> string list" where
  "format_text text_lines_origin = map format_line text_lines_origin"

section \<open>The claims about the inline transformer\<close>

text \<open>The number of passes of the citation-joining loop, counted along the same loop.\<close>

function join_passes :: "string \<Rightarrow> nat" where
  "join_passes line =
     (let length_before = length line;
          line' = join_once line
      in if length line' \<noteq> length_before then Suc (join_passes line') else 1)"
  by pat_completeness auto
termination
proof (relation "measure length")
  show "wf (measure length)" by simp
next
  fix line length_before line'
  assume "length_before = length line" "line' = join_once line"
    "length line' \<noteq> length_before"
  with join_once_shrinks [of line] show "(line', line) \<in> measure length" by simp
qed

declare join_passes.simps [simp del]

lemma join_passes_bound: "join_passes line \<le> length line div 3 + 1"
proof (induction line rule: join_passes.induct)
  case (1 line)
  show ?case
  proof (cases "length (join_once line) \<noteq> length line")
    case False
    then show ?thesis by (simp add: join_passes.simps [of line])
  next
    case True
    with join_once_shrinks [of line] have "length (join_once line) + 3 \<le> length line"
      by auto
    then have "length (join_once line) div 3 + 1 \<le> length line div 3" by arith
    with "1.IH" [OF refl refl True] True show ?thesis
      by (simp add: join_passes.simps [of line])
  qed
qed

lemma join_citations_fixed: "join_once (join_citations line) = join_citations line"
proof (induction line rule: join_citations.induct)
  case (1 line)
  show ?case
  proof (cases "length (join_once line) \<noteq> length line")
    case True
    with "1.IH" [OF refl refl True] show ?thesis
      by (simp add: join_citations.simps [of line])
  next
    case False
    with join_once_shrinks [of line] have "join_once line = line" by auto
    with False show ?thesis by (simp add: join_citations.simps [of line])
  qed
qed

lemma scan_step_bound:
  assumes "scan_step text_lines fig_path i ign = Advance br block i' ign'"
    and "i < length text_lines"
  shows "i' \<le> length text_lines + 1"
proof -
  have a: "\<And>expr start. find_next_index text_lines expr start \<le> length text_lines"
    by (rule find_next_index_le)
  have b: "\<And>expr start. find_next_index text_lines expr start \<le> Suc (length text_lines)"
    using a le_SucI by blast
  from assms show ?thesis
    unfolding scan_step_def Let_def
    by (auto split: if_splits option.splits prod.splits simp: a b)
qed

lemma strictly_increasing_length:
  fixes xs :: "nat list"
  assumes "sorted_wrt (<) xs" and "\<forall>x \<in> set xs. x < n"
  shows "length xs \<le> n"
proof -
  from assms(1) have "distinct xs" by (simp add: strict_sorted_iff)
  then have "length xs = card (set xs)" by (simp add: distinct_card)
  also from assms(2) have "set xs \<subseteq> {..<n}" by auto
  then have "card (set xs) \<le> card {..<n}" by (intro card_mono) simp_all
  finally show ?thesis by simp
qed

lemma scan_run_length: "length (scan_run text_lines fig_path 0 False) \<le> length text_lines"
proof -
  let ?ps = "pointers (scan_run text_lines fig_path 0 False)"
  have "sorted_wrt (<) ?ps" by (rule scan_run_pointers_increase)
  moreover have "\<forall>p \<in> set ?ps. p < length text_lines"
    using scan_run_pointers_ge [of _ text_lines fig_path 0 False] by blast
  ultimately have "length ?ps \<le> length text_lines" by (rule strictly_increasing_length)
  then show ?thesis unfolding pointers_def length_map .
qed

text \<open>
  Claim C9.  Every loop of both components terminates on every input.  The scan loop:
  each pass moves the pointer strictly forward, to at most one past the end of the
  input, so a scan makes at most as many passes as the input has lines, and
  \<open>to_blocks\<close> is the result of that finite run.  The citation-joining loop: a pass
  never lengthens the line, a pass that changes the line shortens it, and a pass that
  leaves the length alone leaves the line alone, so the loop stops after at most a
  third of the line's length plus one passes, at a fixed point of the rewriting.  (The
  other loops run over a fixed range or list.)
\<close>

theorem loops_terminate:
  "(i < length text_lines \<and> scan_step text_lines fig_path i ign = Advance br block i' ign'
      \<longrightarrow> i < i' \<and> i' \<le> length text_lines + 1)
   \<and> length (scan_run text_lines fig_path 0 False) \<le> length text_lines
   \<and> to_blocks text_lines fig_path parent
       = run_result parent [] False (scan_run text_lines fig_path 0 False)
   \<and> length (join_once line) \<le> length line
   \<and> (join_once line \<noteq> line \<longrightarrow> length (join_once line) < length line)
   \<and> (length (join_once line) = length line \<longrightarrow> join_once line = line)
   \<and> join_passes line \<le> length line div 3 + 1
   \<and> join_once (join_citations line) = join_citations line"
proof -
  have 1: "i < length text_lines
      \<and> scan_step text_lines fig_path i ign = Advance br block i' ign'
      \<longrightarrow> i < i' \<and> i' \<le> length text_lines + 1"
    using scan_step_advances [of text_lines fig_path i ign br block i' ign']
      scan_step_bound [of text_lines fig_path i ign br block i' ign'] by simp
  have 2: "to_blocks text_lines fig_path parent
       = run_result parent [] False (scan_run text_lines fig_path 0 False)"
    unfolding to_blocks_def by (rule scan_eq_run)
  from join_once_shrinks [of line]
  have 3: "length (join_once line) \<le> length line"
    and 4: "join_once line \<noteq> line \<longrightarrow> length (join_once line) < length line"
    and 5: "length (join_once line) = length line \<longrightarrow> join_once line = line"
    by auto
  from 1 scan_run_length [of text_lines fig_path] 2 3 4 5 join_passes_bound [of line]
    join_citations_fixed [of line]
  show ?thesis by (intro conjI)
qed

theorem loops_terminate_witness:
  "scan_step [''$$'', ''x''] () 0 False
     = Advance Unlabeled_equation (Some (Equation [''x''] None)) 3 False
   \<and> length (scan_run [''$$'', ''x''] () 0 False) = 1
   \<and> join_once ''[[a2001]], [[b2002]] [[c2003]]'' = ''[[a2001,b2002]] [[c2003]]''
   \<and> join_passes ''[[a2001]], [[b2002]] [[c2003]]'' = 3
   \<and> join_citations ''[[a2001]], [[b2002]] [[c2003]]'' = ''[[a2001,b2002,c2003]]''"
proof -
  have 1: "(0::nat) < length [''$$'', ''x'']
      \<and> scan_step [''$$'', ''x''] () 0 False
          = Advance Unlabeled_equation (Some (Equation [''x''] None)) 3 False" by code_simp
  have 2: "length (scan_run [''$$'', ''x''] () 0 False) = 1" by code_simp
  have 3: "join_once ''[[a2001]], [[b2002]] [[c2003]]'' = ''[[a2001,b2002]] [[c2003]]''"
    by code_simp
  have 4: "join_passes ''[[a2001]], [[b2002]] [[c2003]]'' = 3" by code_simp
  have 5: "join_citations ''[[a2001]], [[b2002]] [[c2003]]'' = ''[[a2001,b2002,c2003]]''"
    by code_simp
  from loops_terminate [where text_lines = "[''$$'', ''x'']" and i = 0 and fig_path = "()"
      and ign = False and br = Unlabeled_equation
      and block = "Some (Equation [''x''] None)" and i' = 3 and ign' = False
      and line = "''[[a2001]], [[b2002]] [[c2003]]''"] 1 2 3 4 5
  show ?thesis by simp
qed

text \<open>
  Claim C7 at its failing input.  The key \<open>abc123\<close> holds no four-digit year that
  starts with 18, 19 or 20, yet its span becomes a citation: in the pattern,
  \<open>[18|19|20]\<close> is a class of single characters (1, 8, |, 9, 2, 0), so a word
  character, one of these and two digits make a key.  The examples of the claim behave
  as it says, and a span that is no key becomes monospace.
\<close>

theorem citation_key_shape:
  "format_text [''`abc123`''] = [[backslash] @ ''cite{abc123}'']
   \<and> format_text [''`doe2020abc`''] = [[backslash] @ ''cite{doe2020abc}'']
   \<and> format_text [''`doe2020a`, `doe2020b`''] = [[backslash] @ ''cite{doe2020a,doe2020b}'']
   \<and> format_text [''`doe`''] = [[backslash] @ ''texttt{doe}'']"
  by code_simp

text \<open>
  A pattern that opens with a literal character finds nothing in a text that holds no
  such character: substitution and search pass over it.
\<close>

lemma sub_from_skip:
  assumes "\<And>pre c t. c \<in> set u \<Longrightarrow> match_here r pre (c # t) = None"
  shows "sub_from r repl pre (u @ s) = u @ sub_from r repl (rev u @ pre) s"
  using assms
proof (induction u arbitrary: pre)
  case Nil
  then show ?case by simp
next
  case (Cons c u)
  have "match_here r pre (c # u @ s) = None" by (rule Cons.prems) simp
  then have "sub_from r repl pre ((c # u) @ s) = c # sub_from r repl (c # pre) (u @ s)"
    by (simp add: sub_from.simps [of r repl pre "c # u @ s"])
  also have "sub_from r repl (c # pre) (u @ s) = u @ sub_from r repl (rev u @ c # pre) s"
    by (rule Cons.IH) (simp add: Cons.prems)
  finally show ?case by simp
qed

lemma findall_from_skip:
  assumes "\<And>pre c t. c \<in> set u \<Longrightarrow> match_here r pre (c # t) = None"
  shows "findall_from r pre (u @ s) = findall_from r (rev u @ pre) s"
  using assms
proof (induction u arbitrary: pre)
  case Nil
  then show ?case by simp
next
  case (Cons c u)
  have "match_here r pre (c # u @ s) = None" by (rule Cons.prems) simp
  then have "findall_from r pre ((c # u) @ s) = findall_from r (c # pre) (u @ s)"
    by (simp add: findall_from.simps [of r pre "c # u @ s"])
  also have "findall_from r (c # pre) (u @ s) = findall_from r (rev u @ c # pre) s"
    by (rule Cons.IH) (simp add: Cons.prems)
  finally show ?case by simp
qed

text \<open>One occurrence \<open>w\<close> of the pattern in a text that holds no other.\<close>

lemma sub_from_one:
  assumes none: "\<And>pre c t. c \<in> set u \<union> set v \<Longrightarrow> match_here r pre (c # t) = None"
    and empty: "\<And>pre. match_here r pre [] = None"
    and hit: "\<And>pre. match_here r pre (w @ v) = Some (length w, g)"
    and w: "w \<noteq> []"
  shows "sub_from r repl pre (u @ w @ v) = u @ repl g @ v"
proof -
  have "sub_from r repl pre (u @ w @ v) = u @ sub_from r repl (rev u @ pre) (w @ v)"
    by (rule sub_from_skip) (simp add: none)
  also have "sub_from r repl (rev u @ pre) (w @ v)
      = repl g @ sub_from r repl (rev w @ rev u @ pre) v"
    using hit [of "rev u @ pre"] w
    by (simp add: sub_from.simps [of r repl "rev u @ pre" "w @ v"])
  also have "sub_from r repl (rev w @ rev u @ pre) v
      = v @ sub_from r repl (rev v @ rev w @ rev u @ pre) []"
    using sub_from_skip [of v r repl "rev w @ rev u @ pre" "[]"] none by simp
  also have "sub_from r repl (rev v @ rev w @ rev u @ pre) [] = []"
    by (simp add: sub_from.simps [of r repl _ "[]"] empty)
  finally show ?thesis by simp
qed

lemma findall_from_one:
  assumes none: "\<And>pre c t. c \<in> set u \<union> set v \<Longrightarrow> match_here r pre (c # t) = None"
    and empty: "\<And>pre. match_here r pre [] = None"
    and hit: "\<And>pre. match_here r pre (w @ v) = Some (length w, g)"
    and w: "w \<noteq> []"
  shows "findall_from r pre (u @ w @ v) = [w]"
proof -
  have "findall_from r pre (u @ w @ v) = findall_from r (rev u @ pre) (w @ v)"
    by (rule findall_from_skip) (simp add: none)
  also have "findall_from r (rev u @ pre) (w @ v)
      = w # findall_from r (rev w @ rev u @ pre) v"
    using hit [of "rev u @ pre"] w
    by (simp add: findall_from.simps [of r "rev u @ pre" "w @ v"])
  also have "findall_from r (rev w @ rev u @ pre) v
      = findall_from r (rev v @ rev w @ rev u @ pre) []"
    using findall_from_skip [of v r "rev w @ rev u @ pre" "[]"] none by simp
  also have "findall_from r (rev v @ rev w @ rev u @ pre) [] = []"
    by (simp add: findall_from.simps [of r _ "[]"] empty)
  finally show ?thesis by simp
qed

lemma sub_from_none:
  assumes none: "\<And>pre c t. c \<in> set s \<Longrightarrow> match_here r pre (c # t) = None"
    and empty: "\<And>pre. match_here r pre [] = None"
  shows "sub_from r repl pre s = s"
proof -
  have "sub_from r repl pre (s @ []) = s @ sub_from r repl (rev s @ pre) []"
    by (rule sub_from_skip) (simp add: none)
  moreover have "sub_from r repl (rev s @ pre) [] = []"
    by (simp add: sub_from.simps [of r repl _ "[]"] empty)
  ultimately show ?thesis by simp
qed

text \<open>
  A lazy repetition stops at the first place where the rest of the pattern matches: it
  passes over a text on whose characters the rest fails.
\<close>

lemma rep_lazy_stop:
  assumes "\<forall>c \<in> set y. p c \<and> (\<forall>pre' t. k pre' (c # t) = None)"
    and "k (rev y @ pre) s = Some r"
  shows "rep False p 0 None k pre (y @ s) = Some r"
  using assms
proof (induction y arbitrary: pre)
  case Nil
  then show ?case by (cases s) simp_all
next
  case (Cons c y)
  from Cons.prems(1) have c: "p c" "k pre (c # y @ s) = None" by simp_all
  from Cons.prems have "rep False p 0 None k (c # pre) (y @ s) = Some r"
    by (intro Cons.IH) simp_all
  with c show ?case by simp
qed

text \<open>The three span patterns share one shape: an opening text, \<open>.*?\<close>, a closing text.\<close>

lemma span_no_match:
  assumes "c \<noteq> o1"
  shows "match_here (Cat (Lit (o1 # op)) r) pre (c # t) = None"
  using assms by (simp add: match_here_def)

lemma span_no_match_empty:
  "match_here (Cat (Lit (o1 # op)) r) pre [] = None"
  by (simp add: match_here_def)

lemma span_match:
  assumes "\<forall>c \<in> set y. c \<noteq> newline \<and> c \<noteq> c1"
  shows "match_here (Cat (Lit op) (Cat (Rep any_char 0 None False) (Lit (c1 # cl)))) pre
           ((op @ y @ c1 # cl) @ v)
         = Some (length (op @ y @ c1 # cl), Map.empty)"
proof -
  let ?s = "(op @ y @ c1 # cl) @ v"
  let ?k = "\<lambda>pre' s'. m (Lit (c1 # cl))
      (\<lambda>st. case st of (pre', s', g) \<Rightarrow> Some (length ?s - length s', g))
      (pre', s', Map.empty :: groups)"
  have "\<forall>c \<in> set y. any_char c \<and> (\<forall>pre' t. ?k pre' (c # t) = None)"
    using assms by (auto simp: any_char_def)
  moreover have "?k (rev y @ rev op @ pre) ((c1 # cl) @ v)
      = Some (length (op @ y @ c1 # cl), Map.empty)"
    by simp
  ultimately have "rep False any_char 0 None ?k (rev op @ pre) (y @ (c1 # cl) @ v)
      = Some (length (op @ y @ c1 # cl), Map.empty)"
    by (rule rep_lazy_stop)
  then show ?thesis by (simp add: match_here_def)
qed

lemma span_sub:
  assumes r: "r = Cat (Lit (o1 # op)) (Cat (Rep any_char 0 None False) (Lit (c1 # cl)))"
    and u: "o1 \<notin> set u" and v: "o1 \<notin> set v"
    and y: "\<forall>c \<in> set y. c \<noteq> newline \<and> c \<noteq> c1"
  shows "sub_from r repl pre (u @ ((o1 # op) @ y @ c1 # cl) @ v) = u @ repl Map.empty @ v"
    and "findall_from r pre (u @ ((o1 # op) @ y @ c1 # cl) @ v) = [(o1 # op) @ y @ c1 # cl]"
proof -
  have none: "\<And>pre c t. c \<in> set u \<union> set v \<Longrightarrow> match_here r pre (c # t) = None"
    unfolding r using u v by (intro span_no_match) auto
  have empty: "\<And>pre. match_here r pre [] = None"
    unfolding r by (rule span_no_match_empty)
  have hit: "\<And>pre. match_here r pre (((o1 # op) @ y @ c1 # cl) @ v)
      = Some (length ((o1 # op) @ y @ c1 # cl), Map.empty)"
    unfolding r using y by (rule span_match)
  have w: "(o1 # op) @ y @ c1 # cl \<noteq> []" by simp
  show "sub_from r repl pre (u @ ((o1 # op) @ y @ c1 # cl) @ v) = u @ repl Map.empty @ v"
    using none empty hit w by (rule sub_from_one)
  show "findall_from r pre (u @ ((o1 # op) @ y @ c1 # cl) @ v) = [(o1 # op) @ y @ c1 # cl]"
    using none empty hit w by (rule findall_from_one)
qed

text \<open>Escaping works character by character.\<close>

definition escape_char :: "char \<Rightarrow> string" where
  "escape_char c = (if c \<in> set LATEX_SPECIAL_CHARS then [backslash, c] else [c])"

lemma replace_all_single:
  "replace_all [k] new s = concat (map (\<lambda>x. if x = k then new else [x]) s)"
proof (induction s)
  case Nil
  then show ?case by (simp add: replace_all.simps [of "[k]" new "[]"])
next
  case (Cons c s)
  then show ?case by (auto simp: replace_all.simps [of "[k]" new "c # s"])
qed

lemma escape_special_chars: "escape_special s = concat (map escape_char s)"
proof (induction s)
  case Nil
  then show ?case
    by (simp add: escape_special_def LATEX_SPECIAL_CHARS_def replace_all_single)
next
  case (Cons c s)
  then show ?case
    by (simp add: escape_special_def LATEX_SPECIAL_CHARS_def replace_all_single
        escape_char_def backslash_def)
qed

lemma escape_special_append:
  "escape_special (u @ v) = escape_special u @ escape_special v"
  by (simp add: escape_special_chars)

lemma escape_special_keeps_out:
  "k \<notin> set s \<Longrightarrow> k \<noteq> backslash \<Longrightarrow> k \<notin> set (escape_special s)"
  by (auto simp: escape_special_chars escape_char_def)

lemma escape_special_placeholders:
  "escape_special CODE_PLACEHOLDER = CODE_PLACEHOLDER"
  "escape_special EQ_PLACEHOLDER = EQ_PLACEHOLDER"
  "escape_special LINK_PLACEHOLDER = LINK_PLACEHOLDER"
  by (simp_all add: escape_special_chars escape_char_def LATEX_SPECIAL_CHARS_def
      CODE_PLACEHOLDER_def EQ_PLACEHOLDER_def LINK_PLACEHOLDER_def)

text \<open>Putting one item back.\<close>

lemma replace_first_skip:
  "old \<noteq> [] \<Longrightarrow> hd old \<notin> set u \<Longrightarrow> replace_first old new (u @ s) = u @ replace_first old new s"
  by (induction u) (auto simp: prefix_def neq_Nil_conv)

lemma replace_first_hit:
  "old \<noteq> [] \<Longrightarrow> replace_first old new (old @ s) = new @ s"
  by (cases old) simp_all

lemma replace_first_other_placeholder:
  "replace_first LINK_PLACEHOLDER item (CODE_PLACEHOLDER @ s)
     = CODE_PLACEHOLDER @ replace_first LINK_PLACEHOLDER item s"
  "replace_first LINK_PLACEHOLDER item (EQ_PLACEHOLDER @ s)
     = EQ_PLACEHOLDER @ replace_first LINK_PLACEHOLDER item s"
  "replace_first EQ_PLACEHOLDER item (CODE_PLACEHOLDER @ s)
     = CODE_PLACEHOLDER @ replace_first EQ_PLACEHOLDER item s"
  by (simp_all add: CODE_PLACEHOLDER_def EQ_PLACEHOLDER_def LINK_PLACEHOLDER_def)

lemma bracket_no_match:
  "c \<noteq> CHR ''['' \<Longrightarrow> match_here bracket_rx pre (c # t) = None"
  "match_here bracket_rx pre [] = None"
  by (simp_all add: match_here_def bracket_rx_def split: list.splits)

lemma bracket_guard_none:
  assumes "CHR ''['' \<notin> set s"
  shows "bracket_guard s = s"
  unfolding bracket_guard_def re_sub_def
proof (rule sub_from_none)
  fix pre c t
  assume "c \<in> set s"
  with assms have "c \<noteq> CHR ''[''" by auto
  then show "match_here bracket_rx pre (c # t) = None" by (rule bracket_no_match)
next
  fix pre
  show "match_here bracket_rx pre [] = None" by (rule bracket_no_match)
qed

end
